theory Spec2Isabelle
  imports Complex_Main "HOL-Library.Sublist"
begin

section \<open>Strings and the character tables\<close>

text \<open>
  A Python \<open>str\<close> is a sequence of Unicode code points; the patterns of the program
  contain the rupee sign (U+20B9) and the en dash (U+2013), so a code point is a
  natural number and a string a list of them. \<open>ustr\<close> reads an ASCII literal.
\<close>

type_synonym ustring = "nat list"

definition ustr :: "string \<Rightarrow> ustring" where
  "ustr s = map of_char s"

text \<open>\<open>s[i:j]\<close> for indices \<open>0 \<le> i\<close>, \<open>0 \<le> j\<close>: clipped at the end of \<open>s\<close>, empty when \<open>j \<le> i\<close>.\<close>

definition slice :: "ustring \<Rightarrow> nat \<Rightarrow> nat \<Rightarrow> ustring" where
  "slice s i j = take (j - i) (drop i s)"

text \<open>
  The whitespace of \<open>str.isspace\<close>, which is also what \<open>\s\<close> matches in a \<open>str\<close> pattern
  and what \<open>str.strip()\<close> removes.
\<close>

definition is_space :: "nat \<Rightarrow> bool" where
  "is_space c \<longleftrightarrow>
     (9 \<le> c \<and> c \<le> 13) \<or> (28 \<le> c \<and> c \<le> 32) \<or> c = 133 \<or> c = 160 \<or> c = 5760 \<or>
     (8192 \<le> c \<and> c \<le> 8202) \<or> c = 8232 \<or> c = 8233 \<or> c = 8239 \<or> c = 8287 \<or> c = 12288"

text \<open>
  \<open>\d\<close> in a \<open>str\<close> pattern matches every decimal digit (category Nd). They come in
  blocks of ten consecutive code points; the list holds the first code point of each
  block (Unicode 14.0, the table of CPython 3.11).
\<close>

definition decimal_blocks :: "nat list" where
  "decimal_blocks =
     [48, 1632, 1776, 1984, 2406, 2534, 2662, 2790, 2918, 3046, 3174, 3302, 3430, 3558,
      3664, 3792, 3872, 4160, 4240, 6112, 6160, 6470, 6608, 6784, 6800, 6992, 7088, 7232,
      7248, 42528, 43216, 43264, 43472, 43504, 43600, 44016, 65296, 66720, 68912, 69734,
      69872, 69942, 70096, 70384, 70736, 70864, 71248, 71360, 71472, 71904, 72016, 72784,
      73040, 73120, 92768, 92864, 93008, 120782, 120792, 120802, 120812, 120822, 123200,
      123632, 125264, 130032]"

definition is_decimal :: "nat \<Rightarrow> bool" where
  "is_decimal c \<longleftrightarrow> list_ex (\<lambda>b. b \<le> c \<and> c < b + 10) decimal_blocks"

text \<open>
  Under \<open>re.I\<close> a character of the text matches when one of its case variants does.
  The table is exact for every class that has an ASCII member: besides the two cases
  of an ASCII letter these are U+0130 and U+0131 (with i), U+212A (with k) and
  U+017F (with s). The patterns of the program contain no other cased character.
\<close>

definition case_variants :: "nat \<Rightarrow> nat list" where
  "case_variants c =
     (if c = 105 \<or> c = 73 \<or> c = 304 \<or> c = 305 then [105, 73, 304, 305]
      else if c = 107 \<or> c = 75 \<or> c = 8490 then [107, 75, 8490]
      else if c = 115 \<or> c = 83 \<or> c = 383 then [115, 83, 383]
      else if 65 \<le> c \<and> c \<le> 90 then [c, c + 32]
      else if 97 \<le> c \<and> c \<le> 122 then [c, c - 32]
      else [c])"

text \<open>
  \<open>str.lower()\<close>. Only U+0130 changes the length (it becomes i followed by U+0307), and
  only A to Z, U+0130 and U+212A have an ASCII letter in their image. Every other
  code point is left as it is here: Python maps it to non-ASCII code points, one for
  one, so the positions and the occurrences of the program's ASCII keywords are the
  same.
\<close>

definition lower_cp :: "nat \<Rightarrow> ustring" where
  "lower_cp c =
     (if 65 \<le> c \<and> c \<le> 90 then [c + 32]
      else if c = 304 then [105, 775]
      else if c = 8490 then [107]
      else [c])"

definition lower :: "ustring \<Rightarrow> ustring" where
  "lower s = concat (map lower_cp s)"

text \<open>
  \<open>str.title()\<close>, for ASCII letters: a letter that follows a letter is lower-cased, any
  other letter is upper-cased. The program applies it to its own table of card names
  only, which are lower-case ASCII words.
\<close>

fun title_from :: "bool \<Rightarrow> ustring \<Rightarrow> ustring" where
  "title_from prev [] = []"
| "title_from prev (c # cs) =
     (if 97 \<le> c \<and> c \<le> 122 then (if prev then c else c - 32) # title_from True cs
      else if 65 \<le> c \<and> c \<le> 90 then (if prev then c + 32 else c) # title_from True cs
      else c # title_from False cs)"

definition title :: "ustring \<Rightarrow> ustring" where
  "title s = title_from False s"

text \<open>\<open>tok in s\<close> and \<open>s.find(tok)\<close> (\<open>None\<close> for Python's \<open>-1\<close>).\<close>

fun contains :: "ustring \<Rightarrow> ustring \<Rightarrow> bool" where
  "contains tok [] \<longleftrightarrow> tok = []"
| "contains tok (c # cs) \<longleftrightarrow> prefix tok (c # cs) \<or> contains tok cs"

fun find_from :: "nat \<Rightarrow> ustring \<Rightarrow> ustring \<Rightarrow> nat option" where
  "find_from i tok [] = (if tok = [] then Some i else None)"
| "find_from i tok (c # cs) =
     (if prefix tok (c # cs) then Some i else find_from (Suc i) tok cs)"

definition str_find :: "ustring \<Rightarrow> ustring \<Rightarrow> nat option" where
  "str_find s tok = find_from 0 tok s"

section \<open>normalize_spaces\<close>

text \<open>\<open>re.sub(r'\s+', ' ', s)\<close>: every maximal run of whitespace becomes one space.\<close>

function collapse_spaces :: "ustring \<Rightarrow> ustring" where
  "collapse_spaces [] = []"
| "collapse_spaces (c # cs) =
     (if is_space c then 32 # collapse_spaces (dropWhile is_space cs)
      else c # collapse_spaces cs)"
  by pat_completeness auto
termination
  by (relation "measure length") (auto simp: length_dropWhile_le less_Suc_eq_le)

definition strip :: "ustring \<Rightarrow> ustring" where
  "strip s = rev (dropWhile is_space (rev (dropWhile is_space s)))"

definition normalize_spaces :: "ustring \<Rightarrow> ustring" where
  "normalize_spaces s = strip (collapse_spaces s)"

section \<open>Regular expressions\<close>

text \<open>
  The fragment of Python's \<open>re\<close> that the patterns use: literals, bracket classes with
  \<open>\d\<close> and \<open>\s\<close>, sequence, alternation, the greedy \<open>?\<close>, greedy repetition of a single
  character (\<open>*\<close>, \<open>+\<close>, \<open>{m,n}\<close>) and numbered capturing groups.
\<close>

datatype item = Single nat | Range nat nat | Digit | Space

datatype atom = Lit nat | Cls "item list"

datatype re =
    Eps
  | Chr atom
  | Seq re re
  | Alt re re
  | Opt re
  | Rep atom nat "nat option"
  | Grp nat re

fun item_ok :: "item \<Rightarrow> nat \<Rightarrow> bool" where
  "item_ok (Single x) c \<longleftrightarrow> c = x"
| "item_ok (Range lo hi) c \<longleftrightarrow> lo \<le> c \<and> c \<le> hi"
| "item_ok Digit c \<longleftrightarrow> is_decimal c"
| "item_ok Space c \<longleftrightarrow> is_space c"

fun atom_plain :: "atom \<Rightarrow> nat \<Rightarrow> bool" where
  "atom_plain (Lit x) c \<longleftrightarrow> c = x"
| "atom_plain (Cls its) c \<longleftrightarrow> list_ex (\<lambda>it. item_ok it c) its"

definition atom_ok :: "bool \<Rightarrow> atom \<Rightarrow> nat \<Rightarrow> bool" where
  "atom_ok ic a c \<longleftrightarrow> (if ic then list_ex (atom_plain a) (case_variants c) else atom_plain a c)"

text \<open>
  The matcher is the backtracking search of \<open>re\<close> written as a list of successes: the
  states reachable from a state, in the order in which backtracking tries them. A
  state is the rest of the text, the position reached and the groups captured so far
  (the latest capture of a group first).
\<close>

type_synonym captures = "(nat \<times> nat \<times> nat) list"
type_synonym mstate = "ustring \<times> nat \<times> captures"

fun rep :: "(nat \<Rightarrow> bool) \<Rightarrow> nat \<Rightarrow> nat option \<Rightarrow> nat \<Rightarrow> ustring \<Rightarrow> nat \<Rightarrow> captures \<Rightarrow> mstate list" where
  "rep ok lo hi k [] pos caps = (if lo \<le> k then [([], pos, caps)] else [])"
| "rep ok lo hi k (c # cs) pos caps =
     (if ok c \<and> (case hi of None \<Rightarrow> True | Some h \<Rightarrow> k < h)
      then rep ok lo hi (Suc k) cs (Suc pos) caps else [])
     @ (if lo \<le> k then [(c # cs, pos, caps)] else [])"

fun ms :: "bool \<Rightarrow> re \<Rightarrow> mstate \<Rightarrow> mstate list" where
  "ms ic Eps st = [st]"
| "ms ic (Chr a) (rest, pos, caps) =
     (case rest of [] \<Rightarrow> []
      | c # cs \<Rightarrow> if atom_ok ic a c then [(cs, Suc pos, caps)] else [])"
| "ms ic (Seq r1 r2) st = concat (map (ms ic r2) (ms ic r1 st))"
| "ms ic (Alt r1 r2) st = ms ic r1 st @ ms ic r2 st"
| "ms ic (Opt r) st = ms ic r st @ [st]"
| "ms ic (Rep a lo hi) (rest, pos, caps) = rep (atom_ok ic a) lo hi 0 rest pos caps"
| "ms ic (Grp g r) (rest, pos, caps) =
     map (\<lambda>(rest', pos', caps'). (rest', pos', (g, pos, pos') # caps')) (ms ic r (rest, pos, caps))"

text \<open>A compiled pattern: the expression and whether \<open>re.I\<close> was given.\<close>

record pattern =
  p_re :: re
  p_ignorecase :: bool

record rmatch =
  m_string :: ustring
  m_start :: nat
  m_end :: nat
  m_groups :: captures

text \<open>\<open>search\<close> tries every start position from the left, the end of the text included.\<close>

fun search_from :: "pattern \<Rightarrow> ustring \<Rightarrow> ustring \<Rightarrow> nat \<Rightarrow> rmatch option" where
  "search_from p text [] pos =
     (case ms (p_ignorecase p) (p_re p) ([], pos, []) of
        [] \<Rightarrow> None
      | (rest', e, caps) # _ \<Rightarrow> Some \<lparr>m_string = text, m_start = pos, m_end = e, m_groups = caps\<rparr>)"
| "search_from p text (c # cs) pos =
     (case ms (p_ignorecase p) (p_re p) (c # cs, pos, []) of
        [] \<Rightarrow> search_from p text cs (Suc pos)
      | (rest', e, caps) # _ \<Rightarrow> Some \<lparr>m_string = text, m_start = pos, m_end = e, m_groups = caps\<rparr>)"

definition search :: "pattern \<Rightarrow> ustring \<Rightarrow> rmatch option" where
  "search p text = search_from p text text 0"

text \<open>\<open>m.span()\<close> and \<open>m.group(g)\<close>; a group that took no part in the match is \<open>None\<close>.\<close>

definition span :: "rmatch \<Rightarrow> nat \<times> nat" where
  "span m = (m_start m, m_end m)"

definition group :: "rmatch \<Rightarrow> nat \<Rightarrow> ustring option" where
  "group m g =
     (if g = 0 then Some (slice (m_string m) (m_start m) (m_end m))
      else map_option (\<lambda>(i, j). slice (m_string m) i j) (map_of (m_groups m) g))"

section \<open>The pattern library\<close>

fun word :: "string \<Rightarrow> re" where
  "word [] = Eps"
| "word (c # cs) = Seq (Chr (Lit (of_char c))) (word cs)"

definition ws_plus :: re where
  "ws_plus = Rep (Cls [Space]) 1 None"

definition ws_star :: re where
  "ws_star = Rep (Cls [Space]) 0 None"

text \<open>\<open>[:\-]\<close>, the separator that may follow a label.\<close>

definition colon_dash :: atom where
  "colon_dash = Cls [Single 58, Single 45]"

text \<open>
  \<^verbatim>\<open>(?:Card(?:\s+ending\s+in| number| no\.?)|Account(?:\s+ending\s+in)|Acct(?:\.)?|ending|XXX-XXXX-)(?:[:\-]?\s*)?(\d{4})\<close>
  with \<open>re.I\<close>.
\<close>

definition RE_LAST4 :: pattern where
  "RE_LAST4 = \<lparr>p_re =
     Seq (Alt (Seq (word ''Card'')
                   (Alt (Seq ws_plus (Seq (word ''ending'') (Seq ws_plus (word ''in''))))
                   (Alt (word '' number'')
                        (Seq (word '' no'') (Opt (Chr (Lit 46)))))))
         (Alt (Seq (word ''Account'')
                   (Seq ws_plus (Seq (word ''ending'') (Seq ws_plus (word ''in'')))))
         (Alt (Seq (word ''Acct'') (Opt (Chr (Lit 46))))
         (Alt (word ''ending'')
              (word ''XXX-XXXX-'')))))
    (Seq (Opt (Seq (Opt (Chr colon_dash)) ws_star))
         (Grp 1 (Rep (Cls [Digit]) 4 (Some 4)))),
     p_ignorecase = True\<rparr>"

text \<open>\<^verbatim>\<open>(\d{1,2}[\/\-]\d{1,2}[\/\-]\d{2,4})\<close>\<close>

definition RE_DATE :: pattern where
  "RE_DATE = \<lparr>p_re =
     Grp 1 (Seq (Rep (Cls [Digit]) 1 (Some 2))
           (Seq (Chr (Cls [Single 47, Single 45]))
           (Seq (Rep (Cls [Digit]) 1 (Some 2))
           (Seq (Chr (Cls [Single 47, Single 45]))
                (Rep (Cls [Digit]) 2 (Some 4)))))),
     p_ignorecase = False\<rparr>"

text \<open>\<^verbatim>\<open>([A-Z][a-z]{2,8}\s+\d{1,2},\s*\d{4})\<close>\<close>

definition RE_DATE_WORD :: pattern where
  "RE_DATE_WORD = \<lparr>p_re =
     Grp 1 (Seq (Chr (Cls [Range 65 90]))
           (Seq (Rep (Cls [Range 97 122]) 2 (Some 8))
           (Seq ws_plus
           (Seq (Rep (Cls [Digit]) 1 (Some 2))
           (Seq (Chr (Lit 44))
           (Seq ws_star
                (Rep (Cls [Digit]) 4 (Some 4)))))))),
     p_ignorecase = False\<rparr>"

text \<open>
  \<^verbatim>\<open>(?:Payment Due Date|Due Date|Payment Due On|Pay By Date)\s*(?:[:\-]?\s*)([A-Za-z0-9 ,\/\-]+)\<close>
  with \<open>re.I\<close>.
\<close>

definition RE_DUE :: pattern where
  "RE_DUE = \<lparr>p_re =
     Seq (Alt (word ''Payment Due Date'')
         (Alt (word ''Due Date'')
         (Alt (word ''Payment Due On'')
              (word ''Pay By Date''))))
    (Seq ws_star
    (Seq (Seq (Opt (Chr colon_dash)) ws_star)
         (Grp 1 (Rep (Cls [Range 65 90, Range 97 122, Range 48 57, Single 32, Single 44,
                           Single 47, Single 45]) 1 None)))),
     p_ignorecase = True\<rparr>"

text \<open>
  \<^verbatim>\<open>(?:Statement Period|Billing Period|Statement Date Range|Account Activity)\s*(?:[:\-]?\s*)([A-Za-z0-9 ,\/\-{U+2013}to]+)\<close>
  with \<open>re.I\<close>; U+2013 is the en dash.
\<close>

definition RE_PERIOD :: pattern where
  "RE_PERIOD = \<lparr>p_re =
     Seq (Alt (word ''Statement Period'')
         (Alt (word ''Billing Period'')
         (Alt (word ''Statement Date Range'')
              (word ''Account Activity''))))
    (Seq ws_star
    (Seq (Seq (Opt (Chr colon_dash)) ws_star)
         (Grp 1 (Rep (Cls [Range 65 90, Range 97 122, Range 48 57, Single 32, Single 44,
                           Single 47, Single 45, Single 8211, Single 116, Single 111]) 1 None)))),
     p_ignorecase = True\<rparr>"

text \<open>
  \<^verbatim>\<open>(?:Total Amount Due|Total Outstanding|Total Due|New Balance|Amount Due|Balance Due)\s*(?:[:\-]?\s*)({U+20B9}?\s*[,\d]+(?:\.\d{2})?)\<close>
  with \<open>re.I\<close>; U+20B9 is the rupee sign.
\<close>

definition RE_TOTAL_BAL :: pattern where
  "RE_TOTAL_BAL = \<lparr>p_re =
     Seq (Alt (word ''Total Amount Due'')
         (Alt (word ''Total Outstanding'')
         (Alt (word ''Total Due'')
         (Alt (word ''New Balance'')
         (Alt (word ''Amount Due'')
              (word ''Balance Due''))))))
    (Seq ws_star
    (Seq (Seq (Opt (Chr colon_dash)) ws_star)
         (Grp 1 (Seq (Opt (Chr (Lit 8377)))
                (Seq ws_star
                (Seq (Rep (Cls [Single 44, Digit]) 1 None)
                     (Opt (Seq (Chr (Lit 46)) (Rep (Cls [Digit]) 2 (Some 2)))))))))),
     p_ignorecase = True\<rparr>"

text \<open>\<^verbatim>\<open>{U+20B9}?\s*[,\d]+(?:\.\d{2})?\<close>\<close>

definition RE_CURRENCY :: pattern where
  "RE_CURRENCY = \<lparr>p_re =
     Seq (Opt (Chr (Lit 8377)))
    (Seq ws_star
    (Seq (Rep (Cls [Single 44, Digit]) 1 None)
         (Opt (Seq (Chr (Lit 46)) (Rep (Cls [Digit]) 2 (Some 2)))))),
     p_ignorecase = False\<rparr>"

text \<open>The issuer keywords, in the order of the dictionary literal.\<close>

definition ISSUERS :: "(ustring \<times> ustring list) list" where
  "ISSUERS =
     [(ustr ''pnb'', [ustr ''pnb'', ustr ''punjab national bank'']),
      (ustr ''lena'', [ustr ''lena'', ustr ''bofa'', ustr ''bankofamerica'']),
      (ustr ''hdfc'', [ustr ''hdfc'']),
      (ustr ''sbi'', [ustr ''sbi'', ustr ''state bank of india''])]"

section \<open>The extractors\<close>

record Extraction =
  "value" :: "ustring option"
  page :: "nat option"
  snippet :: "ustring option"
  confidence :: real
  "notes" :: "ustring option"

text \<open>
  The only exception the extractors could raise: a \<open>None\<close> group handed to \<open>re.sub\<close> or to
  \<open>search\<close>.
\<close>

datatype py_error = TypeError

definition not_found :: Extraction where
  "not_found = \<lparr>value = None, page = None, snippet = None, confidence = 0,
                 notes = Some (ustr ''not found'')\<rparr>"

definition snippet_around :: "ustring \<Rightarrow> nat \<times> nat \<Rightarrow> nat \<Rightarrow> ustring" where
  "snippet_around text match_span context =
     (let start = nat (max 0 (int (fst match_span) - int context));
          end = min (length text) (snd match_span + context)
      in normalize_spaces (slice text start end))"

fun find_issuer_in :: "(ustring \<times> ustring list) list \<Rightarrow> ustring \<Rightarrow> ustring option" where
  "find_issuer_in [] lc = None"
| "find_issuer_in ((key, tokens) # rest) lc =
     (if list_ex (\<lambda>tok. contains tok lc) tokens then Some key else find_issuer_in rest lc)"

definition find_issuer :: "ustring \<Rightarrow> ustring option" where
  "find_issuer all_text = (let lc = lower all_text in find_issuer_in ISSUERS lc)"

fun extract_last4_from :: "nat \<Rightarrow> ustring list \<Rightarrow> Extraction" where
  "extract_last4_from i [] = not_found"
| "extract_last4_from i (text # rest) =
     (case search RE_LAST4 text of
        Some m \<Rightarrow> \<lparr>value = group m 1, page = Some (i + 1),
                   snippet = Some (snippet_around text (span m) 40),
                   confidence = 0.95, notes = None\<rparr>
      | None \<Rightarrow> extract_last4_from (Suc i) rest)"

definition extract_last4 :: "ustring list \<Rightarrow> Extraction" where
  "extract_last4 pages = extract_last4_from 0 pages"

text \<open>\<open>RE_DATE.search(g) or RE_DATE_WORD.search(g)\<close>\<close>

definition date_search :: "ustring \<Rightarrow> rmatch option" where
  "date_search g = (case search RE_DATE g of Some d \<Rightarrow> Some d | None \<Rightarrow> search RE_DATE_WORD g)"

fun extract_due_date_from :: "nat \<Rightarrow> ustring list \<Rightarrow> py_error + Extraction" where
  "extract_due_date_from i [] = Inr not_found"
| "extract_due_date_from i (text # rest) =
     (case search RE_DUE text of
        Some m \<Rightarrow>
          (case group m 1 of
             None \<Rightarrow> Inl TypeError
           | Some g \<Rightarrow>
               (case date_search g of
                  Some d \<Rightarrow>
                    (case group d 1 of
                       None \<Rightarrow> Inl TypeError
                     | Some v \<Rightarrow>
                         Inr \<lparr>value = Some (normalize_spaces v), page = Some (i + 1),
                              snippet = Some (snippet_around text (span m) 40),
                              confidence = 0.95, notes = None\<rparr>)
                | None \<Rightarrow> extract_due_date_from (Suc i) rest))
      | None \<Rightarrow> extract_due_date_from (Suc i) rest)"

definition extract_due_date :: "ustring list \<Rightarrow> py_error + Extraction" where
  "extract_due_date pages = extract_due_date_from 0 pages"

fun extract_statement_period_from :: "nat \<Rightarrow> ustring list \<Rightarrow> py_error + Extraction" where
  "extract_statement_period_from i [] = Inr not_found"
| "extract_statement_period_from i (text # rest) =
     (case search RE_PERIOD text of
        Some m \<Rightarrow>
          (case group m 1 of
             None \<Rightarrow> Inl TypeError
           | Some g \<Rightarrow>
               Inr \<lparr>value = Some (normalize_spaces g), page = Some (i + 1),
                    snippet = Some (snippet_around text (span m) 40),
                    confidence = 0.9, notes = None\<rparr>)
      | None \<Rightarrow> extract_statement_period_from (Suc i) rest)"

definition extract_statement_period :: "ustring list \<Rightarrow> py_error + Extraction" where
  "extract_statement_period pages = extract_statement_period_from 0 pages"

fun extract_total_balance_from :: "nat \<Rightarrow> ustring list \<Rightarrow> py_error + Extraction" where
  "extract_total_balance_from i [] = Inr not_found"
| "extract_total_balance_from i (text # rest) =
     (case search RE_TOTAL_BAL text of
        Some m \<Rightarrow>
          (case group m 1 of
             None \<Rightarrow> Inl TypeError
           | Some g \<Rightarrow>
               (case search RE_CURRENCY g of
                  Some amt \<Rightarrow>
                    Inr \<lparr>value = group amt 0, page = Some (i + 1),
                         snippet = Some (snippet_around text (span m) 40),
                         confidence = 0.95, notes = None\<rparr>
                | None \<Rightarrow>
                    Inr \<lparr>value = Some (normalize_spaces g), page = Some (i + 1),
                         snippet = Some (snippet_around text (span m) 40),
                         confidence = 0.8, notes = None\<rparr>))
      | None \<Rightarrow> extract_total_balance_from (Suc i) rest)"

definition extract_total_balance :: "ustring list \<Rightarrow> py_error + Extraction" where
  "extract_total_balance pages = extract_total_balance_from 0 pages"

text \<open>The \<open>if\<close>/\<open>elif\<close> chain that chooses the candidate names of an issuer.\<close>

definition variant_names :: "ustring \<Rightarrow> ustring list" where
  "variant_names issuer_hint =
     (if issuer_hint = ustr ''chase'' then
        [ustr ''sapphire'', ustr ''freedom'', ustr ''ink'', ustr ''slate'']
      else if issuer_hint = ustr ''amex'' then
        [ustr ''platinum'', ustr ''gold'', ustr ''green'', ustr ''blue'']
      else if issuer_hint = ustr ''citi'' then
        [ustr ''thankyou'', ustr ''premier'', ustr ''double cash'']
      else if issuer_hint = ustr ''boa'' then
        [ustr ''cash rewards'', ustr ''customized cash'']
      else if issuer_hint = ustr ''hsbc'' then
        [ustr ''premier'', ustr ''advance'']
      else if issuer_hint = ustr ''sbi'' then
        [ustr ''prime'', ustr ''simplyclick'', ustr ''elite'', ustr ''classic'']
      else [])"

text \<open>\<open>lc.find(nm)\<close>, with Python's \<open>-1\<close> when \<open>nm\<close> does not occur.\<close>

definition find_index :: "ustring \<Rightarrow> ustring \<Rightarrow> int" where
  "find_index lc nm = (case str_find lc nm of Some i \<Rightarrow> int i | None \<Rightarrow> - 1)"

fun extract_card_variant_from :: "ustring list \<Rightarrow> nat \<Rightarrow> ustring list \<Rightarrow> Extraction" where
  "extract_card_variant_from names i [] = not_found"
| "extract_card_variant_from names i (text # rest) =
     (let lc = lower text in
      case find (\<lambda>nm. contains nm lc) names of
        Some nm \<Rightarrow>
          (let idx = find_index lc nm;
               snip = normalize_spaces (slice text (nat (max 0 (idx - 30))) (nat (idx + 30)))
           in \<lparr>value = Some (title nm), page = Some (i + 1), snippet = Some snip,
                confidence = 0.85, notes = None\<rparr>)
      | None \<Rightarrow> extract_card_variant_from names (Suc i) rest)"

text \<open>\<open>not issuer_hint\<close> holds for \<open>None\<close> and for the empty string.\<close>

definition extract_card_variant :: "ustring list \<Rightarrow> ustring option \<Rightarrow> Extraction" where
  "extract_card_variant pages issuer_hint =
     (case issuer_hint of
        None \<Rightarrow> \<lparr>value = None, page = None, snippet = None, confidence = 0,
                  notes = Some (ustr ''issuer unknown'')\<rparr>
      | Some h \<Rightarrow>
          if h = [] then \<lparr>value = None, page = None, snippet = None, confidence = 0,
                           notes = Some (ustr ''issuer unknown'')\<rparr>
          else extract_card_variant_from (variant_names h) 0 pages)"

section \<open>The aggregator\<close>

record StatementRecord =
  issuer_hint :: "ustring option"
  card_last4 :: Extraction
  card_variant :: Extraction
  statement_period :: Extraction
  payment_due_date :: Extraction
  total_balance :: Extraction

text \<open>\<open>"\n".join(pages)\<close>\<close>

fun join_lines :: "ustring list \<Rightarrow> ustring" where
  "join_lines [] = []"
| "join_lines [p] = p"
| "join_lines (p # q # ps) = p @ 10 # join_lines (q # ps)"

text \<open>
  \<open>parse_pdf\<close> from the page texts on, which \<open>text_from_pdf\<close> reads from the file. The
  extractors run in the order of the source; the first exception ends the run.
\<close>

definition parse_pdf :: "ustring list \<Rightarrow> py_error + StatementRecord" where
  "parse_pdf pages =
     (let fulltext = join_lines pages;
          issuer = find_issuer fulltext;
          last4 = extract_last4 pages
      in case extract_due_date pages of
           Inl e \<Rightarrow> Inl e
         | Inr due \<Rightarrow>
             (case extract_statement_period pages of
                Inl e \<Rightarrow> Inl e
              | Inr period \<Rightarrow>
                  (case extract_total_balance pages of
                     Inl e \<Rightarrow> Inl e
                   | Inr total_due \<Rightarrow>
                       Inr \<lparr>issuer_hint = issuer, card_last4 = last4,
                            card_variant = extract_card_variant pages issuer,
                            statement_period = period, payment_due_date = due,
                            total_balance = total_due\<rparr>)))"

section \<open>Auxiliary notions for the proofs\<close>

text \<open>
  A string is tidy when its only whitespace is single spaces: what
  \<open>collapse_spaces\<close> produces and leaves alone.
\<close>

fun tidy :: "ustring \<Rightarrow> bool" where
  "tidy [] \<longleftrightarrow> True"
| "tidy [c] \<longleftrightarrow> (is_space c \<longrightarrow> c = 32)"
| "tidy (c # d # cs) \<longleftrightarrow> (is_space c \<longrightarrow> c = 32 \<and> \<not> is_space d) \<and> tidy (d # cs)"

text \<open>
  The words an expression matches, stated without reference to the order of the
  search; the matcher is related to it below.
\<close>

fun lang :: "bool \<Rightarrow> re \<Rightarrow> ustring \<Rightarrow> bool" where
  "lang ic Eps w \<longleftrightarrow> w = []"
| "lang ic (Chr a) w \<longleftrightarrow> (\<exists>c. w = [c] \<and> atom_ok ic a c)"
| "lang ic (Seq r1 r2) w \<longleftrightarrow> (\<exists>u v. w = u @ v \<and> lang ic r1 u \<and> lang ic r2 v)"
| "lang ic (Alt r1 r2) w \<longleftrightarrow> lang ic r1 w \<or> lang ic r2 w"
| "lang ic (Opt r) w \<longleftrightarrow> w = [] \<or> lang ic r w"
| "lang ic (Rep a lo hi) w \<longleftrightarrow>
     lo \<le> length w \<and> (case hi of None \<Rightarrow> True | Some h \<Rightarrow> length w \<le> h)
     \<and> list_all (atom_ok ic a) w"
| "lang ic (Grp g r) w \<longleftrightarrow> lang ic r w"

text \<open>Group \<open>g\<close> is captured on every path through the expression.\<close>

fun sets_group :: "nat \<Rightarrow> re \<Rightarrow> bool" where
  "sets_group g Eps \<longleftrightarrow> False"
| "sets_group g (Chr a) \<longleftrightarrow> False"
| "sets_group g (Seq r1 r2) \<longleftrightarrow> sets_group g r1 \<or> sets_group g r2"
| "sets_group g (Alt r1 r2) \<longleftrightarrow> sets_group g r1 \<and> sets_group g r2"
| "sets_group g (Opt r) \<longleftrightarrow> False"
| "sets_group g (Rep a lo hi) \<longleftrightarrow> False"
| "sets_group g (Grp g' r) \<longleftrightarrow> g' = g \<or> sets_group g r"

text \<open>The whole string matches the pattern (\<open>fullmatch\<close> of \<open>re\<close>).\<close>

definition fullmatch :: "pattern \<Rightarrow> ustring \<Rightarrow> bool" where
  "fullmatch p s \<longleftrightarrow>
     list_ex (\<lambda>st. fst st = []) (ms (p_ignorecase p) (p_re p) (s, 0, []))"

text \<open>
  The invariant of an Extraction: an absent value, a zero confidence and a note go
  together.
\<close>

definition consistent :: "Extraction \<Rightarrow> bool" where
  "consistent e \<longleftrightarrow>
     (value e = None \<longleftrightarrow> confidence e = 0)
     \<and> (confidence e = 0 \<longleftrightarrow> notes e \<noteq> None)
     \<and> (value e = None \<longleftrightarrow> notes e \<noteq> None)"

text \<open>
  What \<open>extract_due_date\<close> finds on one page: the match of the label and the date
  found in the captured phrase, when there are both.
\<close>

definition due_date_on_page :: "ustring \<Rightarrow> (rmatch \<times> ustring) option" where
  "due_date_on_page t =
     (case search RE_DUE t of
        None \<Rightarrow> None
      | Some m \<Rightarrow>
          (case group m 1 of
             None \<Rightarrow> None
           | Some g \<Rightarrow>
               (case date_search g of
                  None \<Rightarrow> None
                | Some d \<Rightarrow> map_option (\<lambda>v. (m, v)) (group d 1))))"

text \<open>The group that closes an expression, with its body.\<close>

fun final_group :: "re \<Rightarrow> (nat \<times> re) option" where
  "final_group (Grp g r) = Some (g, r)"
| "final_group (Seq r1 r2) = final_group r2"
| "final_group r = None"

text \<open>The code points that have a case variant other than themselves in \<open>case_variants\<close>.\<close>

definition cased :: "nat \<Rightarrow> bool" where
  "cased c \<longleftrightarrow> (65 \<le> c \<and> c \<le> 90) \<or> (97 \<le> c \<and> c \<le> 122) \<or> c = 304 \<or> c = 305 \<or> c = 383 \<or> c = 8490"

text \<open>
  The two date shapes as the specification words them, to compare with \<open>RE_DATE\<close> and
  \<open>RE_DATE_WORD\<close>: one or two digits, a slash or a dash, one or two digits, a slash or
  a dash, and a year of four or of two digits; and a capital letter with two to eight
  small letters, a space, one or two digits, a comma, a space, four digits.
\<close>

definition SPEC_DATE :: pattern where
  "SPEC_DATE = \<lparr>p_re =
     Seq (Rep (Cls [Digit]) 1 (Some 2))
    (Seq (Chr (Cls [Single 47, Single 45]))
    (Seq (Rep (Cls [Digit]) 1 (Some 2))
    (Seq (Chr (Cls [Single 47, Single 45]))
         (Alt (Rep (Cls [Digit]) 4 (Some 4)) (Rep (Cls [Digit]) 2 (Some 2)))))),
     p_ignorecase = False\<rparr>"

definition SPEC_DATE_WORD :: pattern where
  "SPEC_DATE_WORD = \<lparr>p_re =
     Seq (Chr (Cls [Range 65 90]))
    (Seq (Rep (Cls [Range 97 122]) 2 (Some 8))
    (Seq (Chr (Lit 32))
    (Seq (Rep (Cls [Digit]) 1 (Some 2))
    (Seq (Chr (Lit 44))
    (Seq (Chr (Lit 32))
         (Rep (Cls [Digit]) 4 (Some 4))))))),
     p_ignorecase = False\<rparr>"

section \<open>Properties of normalize_spaces\<close>

lemma tidy_collapse_spaces: "tidy (collapse_spaces s)"
proof (induction s rule: collapse_spaces.induct)
  case 1
  show ?case by simp
next
  case (2 c cs)
  show ?case
  proof (cases "is_space c")
    case True
    show ?thesis
    proof (cases "dropWhile is_space cs")
      case Nil
      from True show ?thesis by (simp add: Nil)
    next
      case (Cons d ds)
      then have "\<not> is_space d"
        by (metis hd_dropWhile list.distinct(1) list.sel(1))
      with True Cons 2(1) show ?thesis by simp
    qed
  next
    case False
    with 2(2) show ?thesis by (cases "collapse_spaces cs") auto
  qed
qed

lemma collapse_spaces_tidy: "tidy s \<Longrightarrow> collapse_spaces s = s"
proof (induction s rule: tidy.induct)
  case 1
  show ?case by simp
next
  case (2 c)
  then show ?case by simp
next
  case (3 c d cs)
  then show ?case by auto
qed

lemma tidy_append_left: "tidy (xs @ ys) \<Longrightarrow> tidy xs"
proof (induction xs rule: tidy.induct)
  case 1
  show ?case by simp
next
  case (2 c)
  then show ?case by (cases ys) auto
next
  case (3 c d cs)
  then show ?case by auto
qed

lemma tidy_append_right: "tidy (xs @ ys) \<Longrightarrow> tidy ys"
proof (induction xs)
  case Nil
  then show ?case by simp
next
  case (Cons x xs)
  then show ?case by (cases "xs @ ys") auto
qed

lemma tidy_strip: "tidy s \<Longrightarrow> tidy (strip s)"
proof -
  assume t: "tidy s"
  have "s = takeWhile is_space s @ dropWhile is_space s" by simp
  with t have a: "tidy (dropWhile is_space s)" by (metis tidy_append_right)
  let ?a = "dropWhile is_space s"
  have "rev ?a = takeWhile is_space (rev ?a) @ dropWhile is_space (rev ?a)" by simp
  then have "?a = rev (dropWhile is_space (rev ?a)) @ rev (takeWhile is_space (rev ?a))"
    by (metis rev_append rev_rev_ident)
  with a show ?thesis unfolding strip_def by (metis tidy_append_left)
qed

lemma strip_strip: "strip (strip s) = strip s"
proof -
  let ?a = "dropWhile is_space s"
  let ?b = "rev (dropWhile is_space (rev ?a))"
  have ab: "?a = ?b @ rev (takeWhile is_space (rev ?a))"
    by (metis rev_append rev_rev_ident takeWhile_dropWhile_id)
  have "dropWhile is_space ?b = ?b"
  proof (cases ?b)
    case Nil
    show ?thesis by (simp add: Nil)
  next
    case (Cons x xs)
    with ab have "?a = x # (xs @ rev (takeWhile is_space (rev ?a)))" by simp
    then have "\<not> is_space x" by (metis hd_dropWhile list.distinct(1) list.sel(1))
    with Cons show ?thesis by simp
  qed
  then show ?thesis by (simp add: strip_def)
qed

lemma length_collapse_spaces: "length (collapse_spaces s) \<le> length s"
proof (induction s rule: collapse_spaces.induct)
  case 1
  show ?case by simp
next
  case (2 c cs)
  have "length (dropWhile is_space cs) \<le> length cs" by (rule length_dropWhile_le)
  with 2 show ?case by (cases "is_space c") auto
qed

lemma length_strip: "length (strip s) \<le> length s"
  unfolding strip_def
  by (metis length_dropWhile_le length_rev le_trans)

lemma length_normalize_spaces: "length (normalize_spaces s) \<le> length s"
  unfolding normalize_spaces_def
  by (meson length_collapse_spaces length_strip le_trans)

text \<open>
  Claim C8: \<open>normalize_spaces\<close> is idempotent for every string: normalizing twice gives
  what normalizing once gives.
\<close>

theorem normalize_spaces_idempotent:
  "normalize_spaces (normalize_spaces s) = normalize_spaces s"
proof -
  have "tidy (strip (collapse_spaces s))"
    by (rule tidy_strip) (rule tidy_collapse_spaces)
  then have "collapse_spaces (strip (collapse_spaces s)) = strip (collapse_spaces s)"
    by (rule collapse_spaces_tidy)
  then show ?thesis by (simp add: normalize_spaces_def strip_strip)
qed

section \<open>The snippet\<close>

lemma length_slice: "length (slice s i j) \<le> min (length s) j - i"
  by (auto simp: slice_def)

text \<open>
  Claim C7: with the default context of 40, \<open>snippet_around\<close> returns the normalized
  slice of the text from \<open>max(0, start - 40)\<close> to \<open>min(len(text), end + 40)\<close>; the
  result is no longer than that window, hence no longer than the span plus 80.
\<close>

theorem snippet_around_window:
  "snippet_around text (s, e) 40 =
     normalize_spaces (slice text (nat (max 0 (int s - 40))) (min (length text) (e + 40)))
   \<and> length (snippet_around text (s, e) 40) \<le> min (length text) (e + 40) - (s - 40)
   \<and> length (snippet_around text (s, e) 40) \<le> (e - s) + 80"
proof -
  let ?a = "nat (max 0 (int s - 40))" and ?b = "min (length text) (e + 40)"
  have eq: "snippet_around text (s, e) 40 = normalize_spaces (slice text ?a ?b)"
    by (simp add: snippet_around_def)
  have a: "?a = s - 40" by simp
  have "length (normalize_spaces (slice text ?a ?b)) \<le> length (slice text ?a ?b)"
    by (rule length_normalize_spaces)
  also have "\<dots> \<le> min (length text) ?b - ?a" by (rule length_slice)
  also have "\<dots> = ?b - (s - 40)" by (simp add: a)
  finally have len: "length (snippet_around text (s, e) 40) \<le> ?b - (s - 40)"
    by (simp only: eq)
  have "?b - (s - 40) \<le> (e - s) + 80" by simp
  with len have "length (snippet_around text (s, e) 40) \<le> (e - s) + 80" by (rule le_trans)
  with eq len show ?thesis by blast
qed

section \<open>Issuer detection\<close>

lemma contains_iff: "contains tok s \<longleftrightarrow> (\<exists>pre suf. s = pre @ tok @ suf)"
proof (induction s)
  case Nil
  show ?case by auto
next
  case (Cons c cs)
  show ?case
  proof
    assume "contains tok (c # cs)"
    then consider "prefix tok (c # cs)" | "contains tok cs" by auto
    then show "\<exists>pre suf. c # cs = pre @ tok @ suf"
    proof cases
      case 1
      then obtain suf where "c # cs = tok @ suf" by (auto simp: prefix_def)
      then have "c # cs = [] @ tok @ suf" by simp
      then show ?thesis by blast
    next
      case 2
      with Cons obtain pre suf where "cs = pre @ tok @ suf" by blast
      then have "c # cs = (c # pre) @ tok @ suf" by simp
      then show ?thesis by blast
    qed
  next
    assume "\<exists>pre suf. c # cs = pre @ tok @ suf"
    then obtain pre suf where ps: "c # cs = pre @ tok @ suf" by blast
    show "contains tok (c # cs)"
    proof (cases pre)
      case Nil
      with ps have "prefix tok (c # cs)" by (simp add: prefix_def)
      then show ?thesis by simp
    next
      case (Cons p pre')
      with ps have "cs = pre' @ tok @ suf" by simp
      with Cons.IH have "contains tok cs" by blast
      then show ?thesis by simp
    qed
  qed
qed

lemma find_issuer_in_find:
  "find_issuer_in tbl lc =
     map_option fst (find (\<lambda>(key, tokens). list_ex (\<lambda>tok. contains tok lc) tokens) tbl)"
  by (induction tbl) auto

text \<open>
  Claim C3: \<open>find_issuer\<close> lower-cases the text and returns the first issuer of the
  table, in the declared order pnb, lena, hdfc, sbi, one of whose keywords occurs in it,
  and \<open>None\<close> when there is none; a text with a keyword of pnb and the keyword of hdfc
  gives pnb.
\<close>

theorem find_issuer_first_declared:
  "find_issuer all_text =
     map_option fst
       (find (\<lambda>(key, tokens). list_ex (\<lambda>tok. contains tok (lower all_text)) tokens) ISSUERS)
   \<and> map fst ISSUERS = [ustr ''pnb'', ustr ''lena'', ustr ''hdfc'', ustr ''sbi'']
   \<and> ((contains (ustr ''pnb'') (lower all_text)
         \<or> contains (ustr ''punjab national bank'') (lower all_text))
        \<and> contains (ustr ''hdfc'') (lower all_text)
       \<longrightarrow> find_issuer all_text = Some (ustr ''pnb''))"
proof -
  have a: "find_issuer all_text =
     map_option fst
       (find (\<lambda>(key, tokens). list_ex (\<lambda>tok. contains tok (lower all_text)) tokens) ISSUERS)"
    by (simp add: find_issuer_def find_issuer_in_find)
  have b: "map fst ISSUERS = [ustr ''pnb'', ustr ''lena'', ustr ''hdfc'', ustr ''sbi'']"
    by (simp add: ISSUERS_def)
  have c: "(contains (ustr ''pnb'') (lower all_text)
         \<or> contains (ustr ''punjab national bank'') (lower all_text))
        \<and> contains (ustr ''hdfc'') (lower all_text)
       \<longrightarrow> find_issuer all_text = Some (ustr ''pnb'')"
    by (auto simp: find_issuer_def ISSUERS_def)
  from a b c show ?thesis by blast
qed

lemmas eval_strings = ustr_def lower_def lower_cp_def prefix_code

theorem find_issuer_first_declared_witness:
  "contains (ustr ''hdfc'') (lower (ustr ''HDFC Bank, formerly PNB''))
   \<and> contains (ustr ''pnb'') (lower (ustr ''HDFC Bank, formerly PNB''))
   \<and> find_issuer (ustr ''HDFC Bank, formerly PNB'') = Some (ustr ''pnb'')"
proof -
  have h: "contains (ustr ''hdfc'') (lower (ustr ''HDFC Bank, formerly PNB''))"
    by (simp add: eval_strings)
  have p: "contains (ustr ''pnb'') (lower (ustr ''HDFC Bank, formerly PNB''))"
    by (simp add: eval_strings)
  from h p find_issuer_first_declared [of "ustr ''HDFC Bank, formerly PNB''"]
  show ?thesis by blast
qed

section \<open>The empty document\<close>

lemma find_issuer_empty: "find_issuer (join_lines []) = None"
  by (simp add: find_issuer_def ISSUERS_def lower_def ustr_def)

text \<open>
  Claim C9: on a document with no pages the issuer is absent, each of the five
  extractors returns an absent Extraction with confidence 0 and a note, and the
  pipeline returns its record without raising.
\<close>

theorem empty_document:
  "find_issuer (join_lines []) = None
   \<and> extract_last4 [] = not_found
   \<and> extract_due_date [] = Inr not_found
   \<and> extract_statement_period [] = Inr not_found
   \<and> extract_total_balance [] = Inr not_found
   \<and> extract_card_variant [] None =
         \<lparr>value = None, page = None, snippet = None, confidence = 0,
          notes = Some (ustr ''issuer unknown'')\<rparr>
   \<and> value (extract_card_variant [] hint) = None
   \<and> confidence (extract_card_variant [] hint) = 0
   \<and> notes (extract_card_variant [] hint) \<noteq> None
   \<and> value not_found = None \<and> confidence not_found = 0
   \<and> notes not_found = Some (ustr ''not found'')
   \<and> parse_pdf [] =
         Inr \<lparr>issuer_hint = None, card_last4 = not_found,
              card_variant = \<lparr>value = None, page = None, snippet = None, confidence = 0,
                              notes = Some (ustr ''issuer unknown'')\<rparr>,
              statement_period = not_found, payment_due_date = not_found,
              total_balance = not_found\<rparr>"
proof -
  have v: "value (extract_card_variant [] hint) = None
     \<and> confidence (extract_card_variant [] hint) = 0
     \<and> notes (extract_card_variant [] hint) \<noteq> None"
    by (simp add: extract_card_variant_def not_found_def split: option.split)
  have n: "value not_found = None \<and> confidence not_found = 0
     \<and> notes not_found = Some (ustr ''not found'')"
    by (simp add: not_found_def)
  have p: "parse_pdf [] =
         Inr \<lparr>issuer_hint = None, card_last4 = not_found,
              card_variant = \<lparr>value = None, page = None, snippet = None, confidence = 0,
                              notes = Some (ustr ''issuer unknown'')\<rparr>,
              statement_period = not_found, payment_due_date = not_found,
              total_balance = not_found\<rparr>"
    unfolding parse_pdf_def Let_def find_issuer_empty
    by (simp add: extract_last4_def extract_due_date_def extract_statement_period_def
        extract_total_balance_def extract_card_variant_def)
  show ?thesis
    using v n p find_issuer_empty
    by (simp add: extract_last4_def extract_due_date_def extract_statement_period_def
        extract_total_balance_def extract_card_variant_def)
qed

section \<open>The card variant\<close>

lemma extract_card_variant_from_first:
  assumes "i < length pages"
    and "\<forall>j<i. find (\<lambda>nm. contains nm (lower (pages ! j))) names = None"
    and "find (\<lambda>nm. contains nm (lower (pages ! i))) names = Some nm"
  shows "extract_card_variant_from names k pages =
           \<lparr>value = Some (title nm), page = Some (k + i + 1),
            snippet = Some (normalize_spaces
              (slice (pages ! i) (nat (max 0 (find_index (lower (pages ! i)) nm - 30)))
                 (nat (find_index (lower (pages ! i)) nm + 30)))),
            confidence = 0.85, notes = None\<rparr>"
  using assms
proof (induction pages arbitrary: i k)
  case Nil
  then show ?case by simp
next
  case (Cons t rest)
  show ?case
  proof (cases i)
    case 0
    with Cons.prems(3) show ?thesis by (simp add: Let_def)
  next
    case (Suc i')
    from Cons.prems(2) Suc have none: "find (\<lambda>nm. contains nm (lower t)) names = None"
      by auto
    from Cons.prems(1) Suc have 1: "i' < length rest" by simp
    from Cons.prems(2) Suc
    have 2: "\<forall>j<i'. find (\<lambda>nm. contains nm (lower (rest ! j))) names = None"
      by auto
    from Cons.prems(3) Suc
    have 3: "find (\<lambda>nm. contains nm (lower (rest ! i'))) names = Some nm"
      by simp
    from Cons.IH [OF 1 2 3, of "Suc k"] none Suc show ?thesis
      by (simp add: Let_def)
  qed
qed

text \<open>
  Claim C6, as amended: with an issuer hint, \<open>extract_card_variant\<close> takes the first
  page on which one of the issuer's names occurs in the lower-cased text and, on that
  page, the first such name in the order of the list, whatever the positions in the
  text; the value is the name in title case and the confidence 0.85. With the hint sbi,
  a page on which simplyclick occurs and prime, listed before it, does not gives
  Simplyclick at 0.85. Without a hint the result is the issuer-unknown Extraction,
  whatever the pages.
\<close>

theorem extract_card_variant_order:
  "(h \<noteq> [] \<and> i < length pages
      \<and> (\<forall>j<i. find (\<lambda>nm. contains nm (lower (pages ! j))) (variant_names h) = None)
      \<and> find (\<lambda>nm. contains nm (lower (pages ! i))) (variant_names h) = Some nm
    \<longrightarrow> extract_card_variant pages (Some h) =
          \<lparr>value = Some (title nm), page = Some (i + 1),
           snippet = Some (normalize_spaces
             (slice (pages ! i) (nat (max 0 (find_index (lower (pages ! i)) nm - 30)))
                (nat (find_index (lower (pages ! i)) nm + 30)))),
           confidence = 0.85, notes = None\<rparr>)
   \<and> variant_names (ustr ''sbi'') =
         [ustr ''prime'', ustr ''simplyclick'', ustr ''elite'', ustr ''classic'']
   \<and> (contains (ustr ''simplyclick'') (lower page_text)
        \<and> \<not> contains (ustr ''prime'') (lower page_text)
       \<longrightarrow> value (extract_card_variant [page_text] (Some (ustr ''sbi''))) = Some (ustr ''Simplyclick'')
         \<and> confidence (extract_card_variant [page_text] (Some (ustr ''sbi''))) = 0.85
         \<and> page (extract_card_variant [page_text] (Some (ustr ''sbi''))) = Some 1)
   \<and> value (extract_card_variant [ustr ''Elite or Prime''] (Some (ustr ''sbi''))) = Some (ustr ''Prime'')
   \<and> extract_card_variant pages None =
         \<lparr>value = None, page = None, snippet = None, confidence = 0,
          notes = Some (ustr ''issuer unknown'')\<rparr>
   \<and> extract_card_variant pages (Some []) =
         \<lparr>value = None, page = None, snippet = None, confidence = 0,
          notes = Some (ustr ''issuer unknown'')\<rparr>"
proof -
  have general: "h \<noteq> [] \<and> i < length pages
      \<and> (\<forall>j<i. find (\<lambda>nm. contains nm (lower (pages ! j))) (variant_names h) = None)
      \<and> find (\<lambda>nm. contains nm (lower (pages ! i))) (variant_names h) = Some nm
    \<longrightarrow> extract_card_variant pages (Some h) =
          \<lparr>value = Some (title nm), page = Some (i + 1),
           snippet = Some (normalize_spaces
             (slice (pages ! i) (nat (max 0 (find_index (lower (pages ! i)) nm - 30)))
                (nat (find_index (lower (pages ! i)) nm + 30)))),
           confidence = 0.85, notes = None\<rparr>"
    using extract_card_variant_from_first [of i pages "variant_names h" nm 0]
    by (simp add: extract_card_variant_def)
  have names: "variant_names (ustr ''sbi'') =
         [ustr ''prime'', ustr ''simplyclick'', ustr ''elite'', ustr ''classic'']"
    by (simp add: variant_names_def ustr_def)
  have sbi: "ustr ''sbi'' \<noteq> []" by (simp add: ustr_def)
  have ttl: "title (ustr ''simplyclick'') = ustr ''Simplyclick''"
    by (simp add: title_def ustr_def)
  have simply: "contains (ustr ''simplyclick'') (lower page_text)
        \<and> \<not> contains (ustr ''prime'') (lower page_text)
       \<longrightarrow> value (extract_card_variant [page_text] (Some (ustr ''sbi''))) = Some (ustr ''Simplyclick'')
         \<and> confidence (extract_card_variant [page_text] (Some (ustr ''sbi''))) = 0.85
         \<and> page (extract_card_variant [page_text] (Some (ustr ''sbi''))) = Some 1"
    by (simp add: extract_card_variant_def sbi names ttl Let_def)
  have lc: "lower (ustr ''Elite or Prime'') = ustr ''elite or prime''"
    by (simp add: lower_def lower_cp_def ustr_def)
  have pr: "contains (ustr ''prime'') (ustr ''elite or prime'')"
    by (simp add: ustr_def prefix_code)
  have ttl2: "title (ustr ''prime'') = ustr ''Prime''"
    by (simp add: title_def ustr_def)
  have order: "value (extract_card_variant [ustr ''Elite or Prime''] (Some (ustr ''sbi''))) = Some (ustr ''Prime'')"
    by (simp add: extract_card_variant_def sbi names lc pr ttl2 Let_def)
  have none: "extract_card_variant pages None =
         \<lparr>value = None, page = None, snippet = None, confidence = 0,
          notes = Some (ustr ''issuer unknown'')\<rparr>"
    by (simp add: extract_card_variant_def)
  have empty: "extract_card_variant pages (Some []) =
         \<lparr>value = None, page = None, snippet = None, confidence = 0,
          notes = Some (ustr ''issuer unknown'')\<rparr>"
    by (simp add: extract_card_variant_def)
  from general names simply order none empty show ?thesis by blast
qed


theorem extract_card_variant_order_witness:
  "ustr ''sbi'' \<noteq> []
   \<and> 1 < length [ustr ''Statement of account'', ustr ''SBI SimplyClick and Elite card'']
   \<and> find (\<lambda>nm. contains nm (lower ([ustr ''Statement of account'',
          ustr ''SBI SimplyClick and Elite card''] ! 0))) (variant_names (ustr ''sbi'')) = None
   \<and> find (\<lambda>nm. contains nm (lower ([ustr ''Statement of account'',
          ustr ''SBI SimplyClick and Elite card''] ! 1))) (variant_names (ustr ''sbi''))
        = Some (ustr ''simplyclick'')
   \<and> extract_card_variant [ustr ''Statement of account'', ustr ''SBI SimplyClick and Elite card'']
         (Some (ustr ''sbi'')) =
         \<lparr>value = Some (ustr ''Simplyclick''), page = Some 2,
          snippet = Some (ustr ''SBI SimplyClick and Elite card''),
          confidence = 0.85, notes = None\<rparr>
   \<and> contains (ustr ''simplyclick'') (lower (ustr ''Your SimplyClick SBI Card''))
   \<and> \<not> contains (ustr ''prime'') (lower (ustr ''Your SimplyClick SBI Card''))
   \<and> value (extract_card_variant [ustr ''Your SimplyClick SBI Card''] (Some (ustr ''sbi'')))
        = Some (ustr ''Simplyclick'')
   \<and> confidence (extract_card_variant [ustr ''Your SimplyClick SBI Card''] (Some (ustr ''sbi'')))
        = 0.85"
proof -
  let ?P = "[ustr ''Statement of account'', ustr ''SBI SimplyClick and Elite card'']"
  let ?T = "ustr ''Your SimplyClick SBI Card''"
  have names: "variant_names (ustr ''sbi'') =
         [ustr ''prime'', ustr ''simplyclick'', ustr ''elite'', ustr ''classic'']"
    by (simp add: variant_names_def ustr_def)
  have h: "ustr ''sbi'' \<noteq> []" by (simp add: ustr_def)
  have l: "1 < length ?P" by simp
  have p0: "find (\<lambda>nm. contains nm (lower (?P ! 0))) (variant_names (ustr ''sbi'')) = None"
    unfolding names by (simp add: eval_strings)
  have p1: "find (\<lambda>nm. contains nm (lower (?P ! 1))) (variant_names (ustr ''sbi''))
        = Some (ustr ''simplyclick'')"
    unfolding names by (simp add: eval_strings)
  from p0 have before: "\<forall>j<1. find (\<lambda>nm. contains nm (lower (?P ! j))) (variant_names (ustr ''sbi'')) = None"
    by simp
  have c1: "contains (ustr ''simplyclick'') (lower ?T)" by (simp add: eval_strings)
  have c2: "\<not> contains (ustr ''prime'') (lower ?T)" by (simp add: eval_strings)
  have ttl: "title (ustr ''simplyclick'') = ustr ''Simplyclick''"
    by (simp add: title_def ustr_def)
  have snip: "normalize_spaces
             (slice (?P ! 1) (nat (max 0 (find_index (lower (?P ! 1)) (ustr ''simplyclick'') - 30)))
                (nat (find_index (lower (?P ! 1)) (ustr ''simplyclick'') + 30)))
     = ustr ''SBI SimplyClick and Elite card''"
    by (simp add: eval_strings find_index_def str_find_def slice_def normalize_spaces_def
        strip_def is_space_def)
  note inst = extract_card_variant_order [of "ustr ''sbi''" 1 ?P "ustr ''simplyclick''" ?T]
  from inst h l before p1
  have r1: "extract_card_variant ?P (Some (ustr ''sbi'')) =
         \<lparr>value = Some (title (ustr ''simplyclick'')), page = Some (1 + 1),
          snippet = Some (normalize_spaces
             (slice (?P ! 1) (nat (max 0 (find_index (lower (?P ! 1)) (ustr ''simplyclick'') - 30)))
                (nat (find_index (lower (?P ! 1)) (ustr ''simplyclick'') + 30)))),
          confidence = 0.85, notes = None\<rparr>"
    by blast
  from inst c1 c2
  have r2: "value (extract_card_variant [?T] (Some (ustr ''sbi''))) = Some (ustr ''Simplyclick'')
     \<and> confidence (extract_card_variant [?T] (Some (ustr ''sbi''))) = 0.85"
    by blast
  from r1 have r1': "extract_card_variant ?P (Some (ustr ''sbi'')) =
         \<lparr>value = Some (ustr ''Simplyclick''), page = Some 2,
          snippet = Some (ustr ''SBI SimplyClick and Elite card''),
          confidence = 0.85, notes = None\<rparr>"
    by (simp only: ttl snip one_add_one)
  from h l p0 p1 r1' c1 c2 r2 show ?thesis by blast
qed

text \<open>
  Claim C6 as stated fails in its example: a page that holds simplyclick may hold prime
  as well, which is listed before it, and then the value is Prime.
\<close>

theorem extract_card_variant_order_counterexample:
  "contains (ustr ''simplyclick'') (lower (ustr ''SimplyClick: Amazon Prime 299.00''))
   \<and> extract_card_variant [ustr ''SimplyClick: Amazon Prime 299.00''] (Some (ustr ''sbi'')) =
       \<lparr>value = Some (ustr ''Prime''), page = Some 1,
        snippet = Some (ustr ''SimplyClick: Amazon Prime 299.00''),
        confidence = 0.85, notes = None\<rparr>"
proof -
  have a: "contains (ustr ''simplyclick'') (lower (ustr ''SimplyClick: Amazon Prime 299.00''))"
    by (simp add: eval_strings)
  have b: "extract_card_variant [ustr ''SimplyClick: Amazon Prime 299.00''] (Some (ustr ''sbi'')) =
       \<lparr>value = Some (ustr ''Prime''), page = Some 1,
        snippet = Some (ustr ''SimplyClick: Amazon Prime 299.00''),
        confidence = 0.85, notes = None\<rparr>"
    by (simp add: extract_card_variant_def variant_names_def eval_strings find_index_def
        str_find_def title_def slice_def normalize_spaces_def strip_def is_space_def Let_def)
  from a b show ?thesis by blast
qed

section \<open>The matcher and the words it matches\<close>

lemma rep_sound:
  "(rest', p', c') \<in> set (rep ok lo hi k rest pos caps) \<Longrightarrow>
   \<exists>w. rest = w @ rest' \<and> p' = pos + length w \<and> c' = caps \<and> list_all ok w
       \<and> lo \<le> k + length w
       \<and> (case hi of None \<Rightarrow> True | Some h \<Rightarrow> w = [] \<or> k + length w \<le> h)"
proof (induction rest arbitrary: k pos)
  case Nil
  then show ?case by (auto split: if_splits option.splits)
next
  case (Cons c cs)
  from Cons.prems consider
      (more) "ok c" "(case hi of None \<Rightarrow> True | Some h \<Rightarrow> k < h)"
             "(rest', p', c') \<in> set (rep ok lo hi (Suc k) cs (Suc pos) caps)"
    | (stop) "lo \<le> k" "(rest', p', c') = (c # cs, pos, caps)"
    by (auto split: if_splits)
  then show ?case
  proof cases
    case more
    from Cons.IH [OF more(3)] obtain w where w: "cs = w @ rest'" "p' = Suc pos + length w"
      "c' = caps" "list_all ok w" "lo \<le> Suc k + length w"
      "(case hi of None \<Rightarrow> True | Some h \<Rightarrow> w = [] \<or> Suc k + length w \<le> h)"
      by blast
    have "c # cs = (c # w) @ rest'" using w(1) by simp
    moreover have "p' = pos + length (c # w)" using w(2) by simp
    moreover have "list_all ok (c # w)" using w(4) more(1) by simp
    moreover have "lo \<le> k + length (c # w)" using w(5) by simp
    moreover have "(case hi of None \<Rightarrow> True | Some h \<Rightarrow> c # w = [] \<or> k + length (c # w) \<le> h)"
      using w(6) more(2) by (auto split: option.splits)
    ultimately show ?thesis using w(3) by blast
  next
    case stop
    then have "c # cs = [] @ rest'" "p' = pos + length ([]::ustring)" "c' = caps" by auto
    with stop(1) show ?thesis by (intro exI [of _ "[]"]) (auto split: option.splits)
  qed
qed

lemma rep_complete:
  "list_all ok w \<Longrightarrow> lo \<le> k + length w \<Longrightarrow>
   (case hi of None \<Rightarrow> True | Some h \<Rightarrow> k + length w \<le> h) \<Longrightarrow>
   (rest', pos + length w, caps) \<in> set (rep ok lo hi k (w @ rest') pos caps)"
proof (induction w arbitrary: k pos)
  case Nil
  then show ?case by (cases rest') auto
next
  case (Cons c w)
  from Cons.prems have 1: "list_all ok w" and okc: "ok c" by auto
  from Cons.prems have 2: "lo \<le> Suc k + length w" by simp
  from Cons.prems have 3: "(case hi of None \<Rightarrow> True | Some h \<Rightarrow> Suc k + length w \<le> h)"
    by (auto split: option.splits)
  from 3 have bound: "(case hi of None \<Rightarrow> True | Some h \<Rightarrow> k < h)"
    by (auto split: option.splits)
  from Cons.IH [OF 1 2 3, of "Suc pos"] okc bound show ?case by simp
qed

lemma ms_sound:
  "(rest', p', c') \<in> set (ms ic r (rest, pos, caps)) \<Longrightarrow>
   \<exists>w. rest = w @ rest' \<and> p' = pos + length w \<and> lang ic r w"
proof (induction r arbitrary: rest pos caps rest' p' c')
  case Eps
  then show ?case by simp
next
  case (Chr a)
  then show ?case by (cases rest) (auto split: if_splits)
next
  case (Seq r1 r2)
  from Seq.prems obtain rest1 p1 c1 where
    a: "(rest1, p1, c1) \<in> set (ms ic r1 (rest, pos, caps))" and
    b: "(rest', p', c') \<in> set (ms ic r2 (rest1, p1, c1))"
    by auto
  from Seq.IH(1) [OF a] obtain u where u: "rest = u @ rest1" "p1 = pos + length u" "lang ic r1 u"
    by blast
  from Seq.IH(2) [OF b] obtain v where v: "rest1 = v @ rest'" "p' = p1 + length v" "lang ic r2 v"
    by blast
  have "rest = (u @ v) @ rest'" using u(1) v(1) by simp
  moreover have "p' = pos + length (u @ v)" using u(2) v(2) by simp
  moreover have "lang ic (Seq r1 r2) (u @ v)" using u(3) v(3) by auto
  ultimately show ?case by blast
next
  case (Alt r1 r2)
  from Alt.prems consider "(rest', p', c') \<in> set (ms ic r1 (rest, pos, caps))"
    | "(rest', p', c') \<in> set (ms ic r2 (rest, pos, caps))" by auto
  then show ?case
  proof cases
    case 1
    from Alt.IH(1) [OF 1] show ?thesis by auto
  next
    case 2
    from Alt.IH(2) [OF 2] show ?thesis by auto
  qed
next
  case (Opt r)
  from Opt.prems consider "(rest', p', c') \<in> set (ms ic r (rest, pos, caps))"
    | "(rest', p', c') = (rest, pos, caps)" by auto
  then show ?case
  proof cases
    case 1
    from Opt.IH [OF 1] show ?thesis by auto
  next
    case 2
    then show ?thesis by (intro exI [of _ "[]"]) auto
  qed
next
  case (Rep a lo hi)
  then have "(rest', p', c') \<in> set (rep (atom_ok ic a) lo hi 0 rest pos caps)" by simp
  from rep_sound [OF this] obtain w where w: "rest = w @ rest'" "p' = pos + length w"
    "list_all (atom_ok ic a) w" "lo \<le> 0 + length w"
    "(case hi of None \<Rightarrow> True | Some h \<Rightarrow> w = [] \<or> 0 + length w \<le> h)"
    by blast
  from w(3,4,5) have "lang ic (Rep a lo hi) w" by (auto split: option.splits)
  with w(1,2) show ?case by blast
next
  case (Grp g r)
  from Grp.prems obtain c'' where "(rest', p', c'') \<in> set (ms ic r (rest, pos, caps))"
    by auto
  from Grp.IH [OF this] show ?case by auto
qed

lemma ms_complete:
  "lang ic r w \<Longrightarrow> \<exists>c'. (rest', pos + length w, c') \<in> set (ms ic r (w @ rest', pos, caps))"
proof (induction r arbitrary: w rest' pos caps)
  case Eps
  then show ?case by simp
next
  case (Chr a)
  then show ?case by auto
next
  case (Seq r1 r2)
  from Seq.prems obtain u v where uv: "w = u @ v" "lang ic r1 u" "lang ic r2 v" by auto
  from Seq.IH(1) [OF uv(2), of "v @ rest'" pos caps] obtain c1 where
    a: "(v @ rest', pos + length u, c1) \<in> set (ms ic r1 (u @ v @ rest', pos, caps))" by blast
  from Seq.IH(2) [OF uv(3), of rest' "pos + length u" c1] obtain c2 where
    b: "(rest', pos + length u + length v, c2) \<in> set (ms ic r2 (v @ rest', pos + length u, c1))"
    by blast
  from a b have "(rest', pos + length u + length v, c2) \<in> set (ms ic (Seq r1 r2) (u @ v @ rest', pos, caps))"
    by (auto intro: bexI [of _ "(v @ rest', pos + length u, c1)"])
  with uv(1) show ?case by (auto simp: add.assoc)
next
  case (Alt r1 r2)
  from Alt.prems consider "lang ic r1 w" | "lang ic r2 w" by auto
  then show ?case
  proof cases
    case 1
    from Alt.IH(1) [OF 1, of rest' pos caps] show ?thesis by auto
  next
    case 2
    from Alt.IH(2) [OF 2, of rest' pos caps] show ?thesis by auto
  qed
next
  case (Opt r)
  from Opt.prems consider "w = []" | "lang ic r w" by auto
  then show ?case
  proof cases
    case 1
    then show ?thesis by auto
  next
    case 2
    from Opt.IH [OF 2, of rest' pos caps] show ?thesis by auto
  qed
next
  case (Rep a lo hi)
  then have "list_all (atom_ok ic a) w" "lo \<le> 0 + length w"
    "(case hi of None \<Rightarrow> True | Some h \<Rightarrow> 0 + length w \<le> h)"
    by (auto split: option.splits)
  from rep_complete [OF this, of rest' pos caps] show ?case by auto
next
  case (Grp g r)
  then have "lang ic r w" by simp
  from Grp.IH [OF this, of rest' pos caps] obtain c' where
    "(rest', pos + length w, c') \<in> set (ms ic r (w @ rest', pos, caps))" by blast
  then have "(rest', pos + length w, (g, pos, pos + length w) # c') \<in> set (ms ic (Grp g r) (w @ rest', pos, caps))"
    by force
  then show ?case by blast
qed

lemma fullmatch_iff_lang: "fullmatch p s \<longleftrightarrow> lang (p_ignorecase p) (p_re p) s"
proof
  assume "fullmatch p s"
  then obtain p' c' where "([], p', c') \<in> set (ms (p_ignorecase p) (p_re p) (s, 0, []))"
    by (auto simp: fullmatch_def list_ex_iff)
  from ms_sound [OF this] show "lang (p_ignorecase p) (p_re p) s" by auto
next
  assume "lang (p_ignorecase p) (p_re p) s"
  from ms_complete [OF this, of "[]" 0 "[]"] show "fullmatch p s"
    by (auto simp: fullmatch_def list_ex_iff intro!: bexI)
qed

section \<open>Captured groups\<close>

lemma rep_caps:
  "(rest', p', c') \<in> set (rep ok lo hi k rest pos caps) \<Longrightarrow> c' = caps"
  using rep_sound by blast

lemma ms_caps_keep:
  "(rest', p', c') \<in> set (ms ic r (rest, pos, caps)) \<Longrightarrow> map_of caps g \<noteq> None \<Longrightarrow>
   map_of c' g \<noteq> None"
proof (induction r arbitrary: rest pos caps rest' p' c')
  case Eps
  then show ?case by simp
next
  case (Chr a)
  then show ?case by (cases rest) (auto split: if_splits)
next
  case (Seq r1 r2)
  from Seq.prems(1) obtain rest1 p1 c1 where
    a: "(rest1, p1, c1) \<in> set (ms ic r1 (rest, pos, caps))" and
    b: "(rest', p', c') \<in> set (ms ic r2 (rest1, p1, c1))"
    by auto
  from Seq.IH(1) [OF a Seq.prems(2)] have "map_of c1 g \<noteq> None" .
  from Seq.IH(2) [OF b this] show ?case .
next
  case (Alt r1 r2)
  from Alt.prems(1) consider "(rest', p', c') \<in> set (ms ic r1 (rest, pos, caps))"
    | "(rest', p', c') \<in> set (ms ic r2 (rest, pos, caps))" by auto
  then show ?case
  proof cases
    case 1
    from Alt.IH(1) [OF 1 Alt.prems(2)] show ?thesis .
  next
    case 2
    from Alt.IH(2) [OF 2 Alt.prems(2)] show ?thesis .
  qed
next
  case (Opt r)
  from Opt.prems(1) consider "(rest', p', c') \<in> set (ms ic r (rest, pos, caps))"
    | "(rest', p', c') = (rest, pos, caps)" by auto
  then show ?case
  proof cases
    case 1
    from Opt.IH [OF 1 Opt.prems(2)] show ?thesis .
  next
    case 2
    with Opt.prems(2) show ?thesis by simp
  qed
next
  case (Rep a lo hi)
  then have "(rest', p', c') \<in> set (rep (atom_ok ic a) lo hi 0 rest pos caps)" by simp
  from rep_caps [OF this] Rep.prems(2) show ?case by simp
next
  case (Grp g' r)
  from Grp.prems(1) obtain c'' where c'': "c' = (g', pos, p') # c''"
    "(rest', p', c'') \<in> set (ms ic r (rest, pos, caps))"
    by auto
  from Grp.IH [OF c''(2) Grp.prems(2)] c''(1) show ?case by simp
qed

lemma sets_group_sound:
  "sets_group g r \<Longrightarrow> (rest', p', c') \<in> set (ms ic r (rest, pos, caps)) \<Longrightarrow>
   map_of c' g \<noteq> None"
proof (induction r arbitrary: rest pos caps rest' p' c')
  case Eps
  then show ?case by simp
next
  case (Chr a)
  then show ?case by simp
next
  case (Seq r1 r2)
  from Seq.prems(2) obtain rest1 p1 c1 where
    a: "(rest1, p1, c1) \<in> set (ms ic r1 (rest, pos, caps))" and
    b: "(rest', p', c') \<in> set (ms ic r2 (rest1, p1, c1))"
    by auto
  from Seq.prems(1) consider "sets_group g r1" | "sets_group g r2" by auto
  then show ?case
  proof cases
    case 1
    from Seq.IH(1) [OF 1 a] have "map_of c1 g \<noteq> None" .
    from ms_caps_keep [OF b this] show ?thesis .
  next
    case 2
    from Seq.IH(2) [OF 2 b] show ?thesis .
  qed
next
  case (Alt r1 r2)
  from Alt.prems(1) have s: "sets_group g r1" "sets_group g r2" by auto
  from Alt.prems(2) consider "(rest', p', c') \<in> set (ms ic r1 (rest, pos, caps))"
    | "(rest', p', c') \<in> set (ms ic r2 (rest, pos, caps))" by auto
  then show ?case
  proof cases
    case 1
    from Alt.IH(1) [OF s(1) 1] show ?thesis .
  next
    case 2
    from Alt.IH(2) [OF s(2) 2] show ?thesis .
  qed
next
  case (Opt r)
  then show ?case by simp
next
  case (Rep a lo hi)
  then show ?case by simp
next
  case (Grp g' r)
  from Grp.prems(2) obtain c'' where c'': "c' = (g', pos, p') # c''"
    "(rest', p', c'') \<in> set (ms ic r (rest, pos, caps))"
    by auto
  show ?case
  proof (cases "g' = g")
    case True
    with c''(1) show ?thesis by simp
  next
    case False
    with Grp.prems(1) have "sets_group g r" by simp
    from Grp.IH [OF this c''(2)] c''(1) show ?thesis by simp
  qed
qed

section \<open>What search returns\<close>

lemma search_from_Some:
  "search_from p text rest pos = Some m \<Longrightarrow>
   \<exists>i rest'. i \<le> length rest \<and> m_string m = text \<and> m_start m = pos + i
     \<and> (rest', m_end m, m_groups m)
         \<in> set (ms (p_ignorecase p) (p_re p) (drop i rest, pos + i, []))"
proof (induction rest arbitrary: pos)
  case Nil
  show ?case
  proof (cases "ms (p_ignorecase p) (p_re p) ([], pos, [])")
    case Nil
    with Nil.prems show ?thesis by simp
  next
    case (Cons st sts)
    obtain rest' e caps where st: "st = (rest', e, caps)" by (cases st)
    with Cons Nil.prems have "m_string m = text" "m_start m = pos"
      "(rest', m_end m, m_groups m) \<in> set (ms (p_ignorecase p) (p_re p) ([], pos, []))"
      by auto
    then show ?thesis by (intro exI [of _ 0]) auto
  qed
next
  case (Cons c cs)
  show ?case
  proof (cases "ms (p_ignorecase p) (p_re p) (c # cs, pos, [])")
    case Nil
    with Cons.prems have "search_from p text cs (Suc pos) = Some m" by simp
    from Cons.IH [OF this] obtain i rest' where "i \<le> length cs" "m_string m = text"
      "m_start m = Suc pos + i"
      "(rest', m_end m, m_groups m) \<in> set (ms (p_ignorecase p) (p_re p) (drop i cs, Suc pos + i, []))"
      by blast
    then show ?thesis by (intro exI [of _ "Suc i"]) auto
  next
    case (Cons st sts)
    obtain rest' e caps where st: "st = (rest', e, caps)" by (cases st)
    with Cons Cons.prems have "m_string m = text" "m_start m = pos"
      "(rest', m_end m, m_groups m) \<in> set (ms (p_ignorecase p) (p_re p) (c # cs, pos, []))"
      by auto
    then show ?thesis by (intro exI [of _ 0]) auto
  qed
qed

lemma search_from_None:
  "search_from p text rest pos = None \<longleftrightarrow>
   (\<forall>i\<le>length rest. ms (p_ignorecase p) (p_re p) (drop i rest, pos + i, []) = [])"
proof (induction rest arbitrary: pos)
  case Nil
  show ?case by (auto split: list.splits)
next
  case (Cons c cs)
  show ?case
  proof (cases "ms (p_ignorecase p) (p_re p) (c # cs, pos, [])")
    case Nil
    have "(\<forall>i\<le>length (c # cs). ms (p_ignorecase p) (p_re p) (drop i (c # cs), pos + i, []) = [])
      \<longleftrightarrow> (\<forall>i\<le>length cs. ms (p_ignorecase p) (p_re p) (drop i cs, Suc pos + i, []) = [])"
    proof
      assume a: "\<forall>i\<le>length (c # cs). ms (p_ignorecase p) (p_re p) (drop i (c # cs), pos + i, []) = []"
      show "\<forall>i\<le>length cs. ms (p_ignorecase p) (p_re p) (drop i cs, Suc pos + i, []) = []"
      proof (intro allI impI)
        fix i assume "i \<le> length cs"
        with a have "ms (p_ignorecase p) (p_re p) (drop (Suc i) (c # cs), pos + Suc i, []) = []"
          by (metis Suc_le_mono length_Cons)
        then show "ms (p_ignorecase p) (p_re p) (drop i cs, Suc pos + i, []) = []" by simp
      qed
    next
      assume a: "\<forall>i\<le>length cs. ms (p_ignorecase p) (p_re p) (drop i cs, Suc pos + i, []) = []"
      show "\<forall>i\<le>length (c # cs). ms (p_ignorecase p) (p_re p) (drop i (c # cs), pos + i, []) = []"
      proof (intro allI impI)
        fix i assume i: "i \<le> length (c # cs)"
        show "ms (p_ignorecase p) (p_re p) (drop i (c # cs), pos + i, []) = []"
        proof (cases i)
          case 0
          with Nil show ?thesis by simp
        next
          case (Suc j)
          with i a have "ms (p_ignorecase p) (p_re p) (drop j cs, Suc pos + j, []) = []" by simp
          with Suc show ?thesis by simp
        qed
      qed
    qed
    with Nil Cons.IH [of "Suc pos"] show ?thesis by simp
  next
    case (Cons st sts)
    then have "search_from p text (c # cs) pos \<noteq> None" by (cases st) auto
    moreover have "\<not> (\<forall>i\<le>length (c # cs). ms (p_ignorecase p) (p_re p) (drop i (c # cs), pos + i, []) = [])"
      using Cons by (auto intro: exI [of _ 0])
    ultimately show ?thesis by blast
  qed
qed

lemma search_Some:
  "search p s = Some m \<Longrightarrow>
   \<exists>rest'. m_start m \<le> length s \<and> m_string m = s
     \<and> (rest', m_end m, m_groups m)
         \<in> set (ms (p_ignorecase p) (p_re p) (drop (m_start m) s, m_start m, []))"
  unfolding search_def using search_from_Some [of p s s 0 m] by auto

lemma search_group_set:
  "search p s = Some m \<Longrightarrow> sets_group g (p_re p) \<Longrightarrow> group m g \<noteq> None"
proof -
  assume a: "search p s = Some m" and b: "sets_group g (p_re p)"
  from search_Some [OF a] obtain rest' where
    "(rest', m_end m, m_groups m)
         \<in> set (ms (p_ignorecase p) (p_re p) (drop (m_start m) s, m_start m, []))"
    by blast
  from sets_group_sound [OF b this] show ?thesis by (auto simp: group_def)
qed

lemma search_nonempty:
  "ms (p_ignorecase p) (p_re p) (s, 0, []) \<noteq> [] \<Longrightarrow> search p s \<noteq> None"
  unfolding search_def
  by (cases s; cases "ms (p_ignorecase p) (p_re p) (s, 0, [])") (auto split: prod.splits)

section \<open>The invariant of an Extraction\<close>

lemma sets_group_patterns:
  "sets_group 1 (p_re RE_LAST4)" "sets_group 1 (p_re RE_DATE)" "sets_group 1 (p_re RE_DATE_WORD)"
  "sets_group 1 (p_re RE_DUE)" "sets_group 1 (p_re RE_PERIOD)" "sets_group 1 (p_re RE_TOTAL_BAL)"
  by (simp_all add: RE_LAST4_def RE_DATE_def RE_DATE_WORD_def RE_DUE_def RE_PERIOD_def
      RE_TOTAL_BAL_def)

lemma date_search_group: "date_search g = Some d \<Longrightarrow> group d 1 \<noteq> None"
  unfolding date_search_def
  by (auto split: option.splits dest: search_group_set [OF _ sets_group_patterns(2)]
      search_group_set [OF _ sets_group_patterns(3)])

lemma group_zero: "group m 0 = Some (slice (m_string m) (m_start m) (m_end m))"
  by (simp add: group_def)

lemma consistent_not_found: "consistent not_found"
  by (simp add: consistent_def not_found_def)

lemma consistent_last4_from: "consistent (extract_last4_from i pages)"
proof (induction pages arbitrary: i)
  case Nil
  show ?case by (simp add: consistent_not_found)
next
  case (Cons t rest)
  show ?case
  proof (cases "search RE_LAST4 t")
    case None
    with Cons show ?thesis by simp
  next
    case (Some m)
    from search_group_set [OF Some sets_group_patterns(1)] obtain v where "group m 1 = Some v"
      by auto
    with Some show ?thesis by (simp add: consistent_def)
  qed
qed

lemma consistent_due_date_from:
  "\<exists>e. extract_due_date_from i pages = Inr e \<and> consistent e"
proof (induction pages arbitrary: i)
  case Nil
  show ?case by (simp add: consistent_not_found)
next
  case (Cons t rest)
  show ?case
  proof (cases "search RE_DUE t")
    case None
    with Cons show ?thesis by simp
  next
    case (Some m)
    from search_group_set [OF Some sets_group_patterns(4)] obtain g where g: "group m 1 = Some g"
      by auto
    show ?thesis
    proof (cases "date_search g")
      case None
      with Some g Cons show ?thesis by simp
    next
      case (Some d)
      from date_search_group [OF Some] obtain v where "group d 1 = Some v" by auto
      with Some g \<open>search RE_DUE t = Some m\<close> show ?thesis by (simp add: consistent_def)
    qed
  qed
qed

lemma consistent_statement_period_from:
  "\<exists>e. extract_statement_period_from i pages = Inr e \<and> consistent e"
proof (induction pages arbitrary: i)
  case Nil
  show ?case by (simp add: consistent_not_found)
next
  case (Cons t rest)
  show ?case
  proof (cases "search RE_PERIOD t")
    case None
    with Cons show ?thesis by simp
  next
    case (Some m)
    from search_group_set [OF Some sets_group_patterns(5)] obtain g where g: "group m 1 = Some g"
      by auto
    with Some show ?thesis by (simp add: consistent_def)
  qed
qed

lemma consistent_total_balance_from:
  "\<exists>e. extract_total_balance_from i pages = Inr e \<and> consistent e"
proof (induction pages arbitrary: i)
  case Nil
  show ?case by (simp add: consistent_not_found)
next
  case (Cons t rest)
  show ?case
  proof (cases "search RE_TOTAL_BAL t")
    case None
    with Cons show ?thesis by simp
  next
    case (Some m)
    from search_group_set [OF Some sets_group_patterns(6)] obtain g where g: "group m 1 = Some g"
      by auto
    with Some show ?thesis by (cases "search RE_CURRENCY g") (simp_all add: consistent_def group_zero)
  qed
qed

lemma consistent_card_variant_from: "consistent (extract_card_variant_from names i pages)"
proof (induction pages arbitrary: i)
  case Nil
  show ?case by (simp add: consistent_not_found)
next
  case (Cons t rest)
  then show ?case
    by (cases "find (\<lambda>nm. contains nm (lower t)) names") (simp_all add: consistent_def Let_def)
qed

text \<open>
  Claim C2: for the Extraction that any of the five extractors returns, on any pages
  (and any issuer hint), the value is absent exactly when the confidence is 0, and
  exactly when a note is set. The three extractors that hand a group to another
  function do return an Extraction.
\<close>

theorem extraction_consistent:
  "consistent (extract_last4 pages)
   \<and> (\<exists>e. extract_due_date pages = Inr e \<and> consistent e)
   \<and> (\<exists>e. extract_statement_period pages = Inr e \<and> consistent e)
   \<and> (\<exists>e. extract_total_balance pages = Inr e \<and> consistent e)
   \<and> consistent (extract_card_variant pages hint)"
proof -
  have absent: "consistent \<lparr>value = None, page = None, snippet = None, confidence = 0,
      notes = Some (ustr ''issuer unknown'')\<rparr>"
    by (simp add: consistent_def)
  have v: "consistent (extract_card_variant pages hint)"
  proof (cases hint)
    case None
    with absent show ?thesis by (simp add: extract_card_variant_def)
  next
    case (Some h)
    with absent consistent_card_variant_from [of "variant_names h" 0 pages]
    show ?thesis by (cases "h = []") (simp_all add: extract_card_variant_def)
  qed
  show ?thesis
    unfolding extract_last4_def extract_due_date_def extract_statement_period_def
      extract_total_balance_def
    using consistent_last4_from consistent_due_date_from consistent_statement_period_from
      consistent_total_balance_from v
    by blast
qed

section \<open>The first page that matches\<close>

lemma split_at_index:
  "i < length pages \<Longrightarrow> pages = take i pages @ pages ! i # drop (Suc i) pages"
  by (simp add: id_take_nth_drop)

lemma before_index:
  "i < length pages \<Longrightarrow> \<forall>j<i. f (pages ! j) = None \<Longrightarrow> \<forall>p\<in>set (take i pages). f p = None"
  by (auto simp: in_set_conv_nth)

lemma extract_last4_from_first:
  "\<forall>p\<in>set pre. search RE_LAST4 p = None \<Longrightarrow> search RE_LAST4 t = Some m \<Longrightarrow>
   extract_last4_from k (pre @ t # post) =
     \<lparr>value = group m 1, page = Some (k + length pre + 1),
      snippet = Some (snippet_around t (span m) 40), confidence = 0.95, notes = None\<rparr>"
  by (induction pre arbitrary: k) auto

lemma extract_statement_period_from_first:
  "\<forall>p\<in>set pre. search RE_PERIOD p = None \<Longrightarrow> search RE_PERIOD t = Some m \<Longrightarrow>
   group m 1 = Some g \<Longrightarrow>
   extract_statement_period_from k (pre @ t # post) =
     Inr \<lparr>value = Some (normalize_spaces g), page = Some (k + length pre + 1),
          snippet = Some (snippet_around t (span m) 40), confidence = 0.9, notes = None\<rparr>"
  by (induction pre arbitrary: k) auto

lemma extract_total_balance_from_first:
  "\<forall>p\<in>set pre. search RE_TOTAL_BAL p = None \<Longrightarrow> search RE_TOTAL_BAL t = Some m \<Longrightarrow>
   group m 1 = Some g \<Longrightarrow>
   extract_total_balance_from k (pre @ t # post) =
     Inr (case search RE_CURRENCY g of
            Some amt \<Rightarrow>
              \<lparr>value = group amt 0, page = Some (k + length pre + 1),
               snippet = Some (snippet_around t (span m) 40), confidence = 0.95, notes = None\<rparr>
          | None \<Rightarrow>
              \<lparr>value = Some (normalize_spaces g), page = Some (k + length pre + 1),
               snippet = Some (snippet_around t (span m) 40), confidence = 0.8, notes = None\<rparr>)"
  by (induction pre arbitrary: k) (auto split: option.splits)

lemma due_date_on_page_None:
  "due_date_on_page t = None \<Longrightarrow>
   extract_due_date_from k (t # rest) = extract_due_date_from (Suc k) rest"
proof (cases "search RE_DUE t")
  case None
  then show ?thesis by simp
next
  case (Some m)
  assume a: "due_date_on_page t = None"
  from search_group_set [OF Some sets_group_patterns(4)] obtain g where g: "group m 1 = Some g"
    by auto
  show ?thesis
  proof (cases "date_search g")
    case None
    with Some g show ?thesis by simp
  next
    case (Some d)
    from date_search_group [OF Some] obtain v where "group d 1 = Some v" by auto
    with a Some g \<open>search RE_DUE t = Some m\<close> show ?thesis by (simp add: due_date_on_page_def)
  qed
qed

lemma due_date_on_page_Some:
  "due_date_on_page t = Some (m, v) \<Longrightarrow>
   extract_due_date_from k (t # rest) =
     Inr \<lparr>value = Some (normalize_spaces v), page = Some (k + 1),
          snippet = Some (snippet_around t (span m) 40), confidence = 0.95, notes = None\<rparr>"
  by (auto simp: due_date_on_page_def split: option.splits)

lemma extract_due_date_from_first:
  "\<forall>p\<in>set pre. due_date_on_page p = None \<Longrightarrow> due_date_on_page t = Some (m, v) \<Longrightarrow>
   extract_due_date_from k (pre @ t # post) =
     Inr \<lparr>value = Some (normalize_spaces v), page = Some (k + length pre + 1),
          snippet = Some (snippet_around t (span m) 40), confidence = 0.95, notes = None\<rparr>"
proof (induction pre arbitrary: k)
  case Nil
  from due_date_on_page_Some [OF Nil.prems(2), of k post] show ?case
    by (simp del: extract_due_date_from.simps)
next
  case (Cons p pre)
  from Cons.prems have "due_date_on_page p = None" by simp
  from due_date_on_page_None [OF this]
  have "extract_due_date_from k ((p # pre) @ t # post)
      = extract_due_date_from (Suc k) (pre @ t # post)"
    by (simp del: extract_due_date_from.simps)
  also from Cons.prems have "\<dots> = Inr \<lparr>value = Some (normalize_spaces v),
      page = Some (Suc k + length pre + 1),
      snippet = Some (snippet_around t (span m) 40), confidence = 0.95, notes = None\<rparr>"
    by (intro Cons.IH) auto
  finally show ?case by (simp del: extract_due_date_from.simps)
qed


lemma is_decimal_low: "c < 1632 \<Longrightarrow> is_decimal c \<longleftrightarrow> 48 \<le> c \<and> c \<le> 57"
  by (auto simp: is_decimal_def decimal_blocks_def)

lemmas eval_match = search_def ustr_def atom_ok_def is_decimal_low is_space_def case_variants_def
  ws_plus_def ws_star_def colon_dash_def group_def slice_def span_def normalize_spaces_def
  strip_def snippet_around_def date_search_def

text \<open>
  Claim C1, as amended: \<open>extract_last4\<close>, \<open>extract_statement_period\<close> and
  \<open>extract_total_balance\<close> return at the first page on which the label pattern matches;
  \<open>extract_due_date\<close> returns at the first page on which the label pattern matches and
  the captured phrase holds a date, and passes over a page whose label matches without
  one. The page reported is the index plus one, the confidence is the fixed one, and
  the pages after it do not change the result.
\<close>

theorem first_matching_page:
  "(i < length pages \<and> (\<forall>j<i. search RE_LAST4 (pages ! j) = None)
      \<and> search RE_LAST4 (pages ! i) = Some m
    \<longrightarrow> extract_last4 pages =
          \<lparr>value = group m 1, page = Some (i + 1),
           snippet = Some (snippet_around (pages ! i) (span m) 40),
           confidence = 0.95, notes = None\<rparr>
        \<and> extract_last4 (take (Suc i) pages) = extract_last4 pages)
   \<and> (i < length pages \<and> (\<forall>j<i. search RE_PERIOD (pages ! j) = None)
      \<and> search RE_PERIOD (pages ! i) = Some m
    \<longrightarrow> (\<exists>g. group m 1 = Some g
           \<and> extract_statement_period pages =
               Inr \<lparr>value = Some (normalize_spaces g), page = Some (i + 1),
                    snippet = Some (snippet_around (pages ! i) (span m) 40),
                    confidence = 0.9, notes = None\<rparr>)
        \<and> extract_statement_period (take (Suc i) pages) = extract_statement_period pages)
   \<and> (i < length pages \<and> (\<forall>j<i. search RE_TOTAL_BAL (pages ! j) = None)
      \<and> search RE_TOTAL_BAL (pages ! i) = Some m
    \<longrightarrow> (\<exists>g. group m 1 = Some g
           \<and> extract_total_balance pages =
               Inr (case search RE_CURRENCY g of
                      Some amt \<Rightarrow>
                        \<lparr>value = group amt 0, page = Some (i + 1),
                         snippet = Some (snippet_around (pages ! i) (span m) 40),
                         confidence = 0.95, notes = None\<rparr>
                    | None \<Rightarrow>
                        \<lparr>value = Some (normalize_spaces g), page = Some (i + 1),
                         snippet = Some (snippet_around (pages ! i) (span m) 40),
                         confidence = 0.8, notes = None\<rparr>))
        \<and> extract_total_balance (take (Suc i) pages) = extract_total_balance pages)
   \<and> (i < length pages \<and> (\<forall>j<i. due_date_on_page (pages ! j) = None)
      \<and> due_date_on_page (pages ! i) = Some (m, v)
    \<longrightarrow> extract_due_date pages =
          Inr \<lparr>value = Some (normalize_spaces v), page = Some (i + 1),
               snippet = Some (snippet_around (pages ! i) (span m) 40),
               confidence = 0.95, notes = None\<rparr>
        \<and> extract_due_date (take (Suc i) pages) = extract_due_date pages)"
proof (intro conjI impI; elim conjE)
  assume i: "i < length pages"
  then have tk: "take (Suc i) pages = take i pages @ pages ! i # []"
    by (simp add: take_Suc_conv_app_nth)
  note sp = split_at_index [OF i]
  {
    assume b: "\<forall>j<i. search RE_LAST4 (pages ! j) = None"
      and h: "search RE_LAST4 (pages ! i) = Some m"
    from before_index [OF i b] have pre: "\<forall>p\<in>set (take i pages). search RE_LAST4 p = None" .
    from extract_last4_from_first [OF pre h, of 0 "drop (Suc i) pages"] sp i
    show r: "extract_last4 pages =
          \<lparr>value = group m 1, page = Some (i + 1),
           snippet = Some (snippet_around (pages ! i) (span m) 40),
           confidence = 0.95, notes = None\<rparr>"
      by (simp add: extract_last4_def)
    from extract_last4_from_first [OF pre h, of 0 "[]"] tk i r
    show "extract_last4 (take (Suc i) pages) = extract_last4 pages"
      by (simp add: extract_last4_def)
  }
  {
    assume b: "\<forall>j<i. search RE_PERIOD (pages ! j) = None"
      and h: "search RE_PERIOD (pages ! i) = Some m"
    from before_index [OF i b] have pre: "\<forall>p\<in>set (take i pages). search RE_PERIOD p = None" .
    from search_group_set [OF h sets_group_patterns(5)] obtain g where g: "group m 1 = Some g"
      by auto
    from extract_statement_period_from_first [OF pre h g, of 0 "drop (Suc i) pages"] sp i
    have r: "extract_statement_period pages =
               Inr \<lparr>value = Some (normalize_spaces g), page = Some (i + 1),
                    snippet = Some (snippet_around (pages ! i) (span m) 40),
                    confidence = 0.9, notes = None\<rparr>"
      by (simp add: extract_statement_period_def)
    with g show "\<exists>g. group m 1 = Some g
           \<and> extract_statement_period pages =
               Inr \<lparr>value = Some (normalize_spaces g), page = Some (i + 1),
                    snippet = Some (snippet_around (pages ! i) (span m) 40),
                    confidence = 0.9, notes = None\<rparr>"
      by blast
    from extract_statement_period_from_first [OF pre h g, of 0 "[]"] tk i r
    show "extract_statement_period (take (Suc i) pages) = extract_statement_period pages"
      by (simp add: extract_statement_period_def)
  }
  {
    assume b: "\<forall>j<i. search RE_TOTAL_BAL (pages ! j) = None"
      and h: "search RE_TOTAL_BAL (pages ! i) = Some m"
    from before_index [OF i b] have pre: "\<forall>p\<in>set (take i pages). search RE_TOTAL_BAL p = None" .
    from search_group_set [OF h sets_group_patterns(6)] obtain g where g: "group m 1 = Some g"
      by auto
    from extract_total_balance_from_first [OF pre h g, of 0 "drop (Suc i) pages"] sp i
    have r: "extract_total_balance pages =
               Inr (case search RE_CURRENCY g of
                      Some amt \<Rightarrow>
                        \<lparr>value = group amt 0, page = Some (i + 1),
                         snippet = Some (snippet_around (pages ! i) (span m) 40),
                         confidence = 0.95, notes = None\<rparr>
                    | None \<Rightarrow>
                        \<lparr>value = Some (normalize_spaces g), page = Some (i + 1),
                         snippet = Some (snippet_around (pages ! i) (span m) 40),
                         confidence = 0.8, notes = None\<rparr>)"
      by (simp add: extract_total_balance_def split: option.splits)
    with g show "\<exists>g. group m 1 = Some g
           \<and> extract_total_balance pages =
               Inr (case search RE_CURRENCY g of
                      Some amt \<Rightarrow>
                        \<lparr>value = group amt 0, page = Some (i + 1),
                         snippet = Some (snippet_around (pages ! i) (span m) 40),
                         confidence = 0.95, notes = None\<rparr>
                    | None \<Rightarrow>
                        \<lparr>value = Some (normalize_spaces g), page = Some (i + 1),
                         snippet = Some (snippet_around (pages ! i) (span m) 40),
                         confidence = 0.8, notes = None\<rparr>)"
      by blast
    from extract_total_balance_from_first [OF pre h g, of 0 "[]"] tk i r
    show "extract_total_balance (take (Suc i) pages) = extract_total_balance pages"
      by (simp add: extract_total_balance_def split: option.splits)
  }
  {
    assume b: "\<forall>j<i. due_date_on_page (pages ! j) = None"
      and h: "due_date_on_page (pages ! i) = Some (m, v)"
    from before_index [OF i b] have pre: "\<forall>p\<in>set (take i pages). due_date_on_page p = None" .
    from extract_due_date_from_first [OF pre h, of 0 "drop (Suc i) pages"] sp i
    show r: "extract_due_date pages =
          Inr \<lparr>value = Some (normalize_spaces v), page = Some (i + 1),
               snippet = Some (snippet_around (pages ! i) (span m) 40),
               confidence = 0.95, notes = None\<rparr>"
      by (simp add: extract_due_date_def)
    from extract_due_date_from_first [OF pre h, of 0 "[]"] tk i r
    show "extract_due_date (take (Suc i) pages) = extract_due_date pages"
      by (simp add: extract_due_date_def)
  }
qed


theorem first_matching_page_witness:
  "search RE_LAST4 ([ustr ''Statement'', ustr ''Acct 1234'', ustr ''Acct 9999''] ! 0) = None
   \<and> search RE_LAST4 ([ustr ''Statement'', ustr ''Acct 1234'', ustr ''Acct 9999''] ! 1) \<noteq> None
   \<and> extract_last4 [ustr ''Statement'', ustr ''Acct 1234'', ustr ''Acct 9999''] =
         \<lparr>value = Some (ustr ''1234''), page = Some 2, snippet = Some (ustr ''Acct 1234''),
          confidence = 0.95, notes = None\<rparr>
   \<and> search RE_PERIOD ([ustr ''Statement'', ustr ''Billing Period: 1 Jan to 31 Jan''] ! 0) = None
   \<and> search RE_PERIOD ([ustr ''Statement'', ustr ''Billing Period: 1 Jan to 31 Jan''] ! 1) \<noteq> None
   \<and> extract_statement_period [ustr ''Statement'', ustr ''Billing Period: 1 Jan to 31 Jan''] =
         Inr \<lparr>value = Some (ustr ''1 Jan to 31 Jan''), page = Some 2,
              snippet = Some (ustr ''Billing Period: 1 Jan to 31 Jan''),
              confidence = 0.9, notes = None\<rparr>
   \<and> search RE_TOTAL_BAL ([ustr ''Statement'', ustr ''Total Due: 1,250.00'', ustr ''Total Due: 7''] ! 0) = None
   \<and> search RE_TOTAL_BAL ([ustr ''Statement'', ustr ''Total Due: 1,250.00'', ustr ''Total Due: 7''] ! 1) \<noteq> None
   \<and> extract_total_balance [ustr ''Statement'', ustr ''Total Due: 1,250.00'', ustr ''Total Due: 7''] =
         Inr \<lparr>value = Some (ustr ''1,250.00''), page = Some 2,
              snippet = Some (ustr ''Total Due: 1,250.00''),
              confidence = 0.95, notes = None\<rparr>
   \<and> due_date_on_page ([ustr ''Due Date: see below'', ustr ''Due Date: 04/15/2024'',
          ustr ''Due Date: 01/01/2025''] ! 0) = None
   \<and> due_date_on_page ([ustr ''Due Date: see below'', ustr ''Due Date: 04/15/2024'',
          ustr ''Due Date: 01/01/2025''] ! 1) \<noteq> None
   \<and> extract_due_date [ustr ''Due Date: see below'', ustr ''Due Date: 04/15/2024'',
          ustr ''Due Date: 01/01/2025''] =
         Inr \<lparr>value = Some (ustr ''04/15/2024''), page = Some 2,
              snippet = Some (ustr ''Due Date: 04/15/2024''),
              confidence = 0.95, notes = None\<rparr>"
proof -
  let ?A = "[ustr ''Statement'', ustr ''Acct 1234'', ustr ''Acct 9999'']"
  let ?ma = "\<lparr>m_string = ustr ''Acct 1234'', m_start = 0, m_end = 9, m_groups = [(1, 5, 9)]\<rparr>"
  have a0: "\<forall>j<1. search RE_LAST4 (?A ! j) = None"
    by (simp add: eval_match RE_LAST4_def)
  have a1: "search RE_LAST4 (?A ! 1) = Some ?ma"
    by (simp add: eval_match RE_LAST4_def)
  have av: "group ?ma 1 = Some (ustr ''1234'')" by (simp add: eval_match)
  have as: "snippet_around (?A ! 1) (span ?ma) 40 = ustr ''Acct 1234''" by (simp add: eval_match)
  from first_matching_page [of 1 ?A ?ma] a0 a1
  have "extract_last4 ?A =
          \<lparr>value = group ?ma 1, page = Some (1 + 1),
           snippet = Some (snippet_around (?A ! 1) (span ?ma) 40),
           confidence = 0.95, notes = None\<rparr>"
    by simp
  then have ra: "extract_last4 ?A =
         \<lparr>value = Some (ustr ''1234''), page = Some 2, snippet = Some (ustr ''Acct 1234''),
          confidence = 0.95, notes = None\<rparr>"
    by (simp only: av as one_add_one)

  let ?B = "[ustr ''Statement'', ustr ''Billing Period: 1 Jan to 31 Jan'']"
  let ?mb = "\<lparr>m_string = ustr ''Billing Period: 1 Jan to 31 Jan'', m_start = 0, m_end = 31, m_groups = [(1, 16, 31)]\<rparr>"
  have b0: "\<forall>j<1. search RE_PERIOD (?B ! j) = None"
    by (simp add: eval_match RE_PERIOD_def)
  have b1: "search RE_PERIOD (?B ! 1) = Some ?mb"
    by (simp add: eval_match RE_PERIOD_def)
  have bv: "group ?mb 1 = Some (ustr ''1 Jan to 31 Jan'')" by (simp add: eval_match)
  have bn: "normalize_spaces (ustr ''1 Jan to 31 Jan'') = ustr ''1 Jan to 31 Jan''"
    by (simp add: eval_match)
  have bs: "snippet_around (?B ! 1) (span ?mb) 40 = ustr ''Billing Period: 1 Jan to 31 Jan''"
    by (simp add: eval_match)
  from first_matching_page [of 1 ?B ?mb] b0 b1
  have "\<exists>g. group ?mb 1 = Some g
           \<and> extract_statement_period ?B =
               Inr \<lparr>value = Some (normalize_spaces g), page = Some (1 + 1),
                    snippet = Some (snippet_around (?B ! 1) (span ?mb) 40),
                    confidence = 0.9, notes = None\<rparr>"
    by simp
  then have "extract_statement_period ?B =
               Inr \<lparr>value = Some (normalize_spaces (ustr ''1 Jan to 31 Jan'')), page = Some (1 + 1),
                    snippet = Some (snippet_around (?B ! 1) (span ?mb) 40),
                    confidence = 0.9, notes = None\<rparr>"
    unfolding bv by blast
  then have rb: "extract_statement_period ?B =
         Inr \<lparr>value = Some (ustr ''1 Jan to 31 Jan''), page = Some 2,
              snippet = Some (ustr ''Billing Period: 1 Jan to 31 Jan''),
              confidence = 0.9, notes = None\<rparr>"
    by (simp only: bn bs one_add_one)

  let ?C = "[ustr ''Statement'', ustr ''Total Due: 1,250.00'', ustr ''Total Due: 7'']"
  let ?mc = "\<lparr>m_string = ustr ''Total Due: 1,250.00'', m_start = 0, m_end = 19, m_groups = [(1, 11, 19)]\<rparr>"
  let ?amt = "\<lparr>m_string = ustr ''1,250.00'', m_start = 0, m_end = 8, m_groups = []\<rparr>"
  have c0: "\<forall>j<1. search RE_TOTAL_BAL (?C ! j) = None"
    by (simp add: eval_match RE_TOTAL_BAL_def)
  have c1: "search RE_TOTAL_BAL (?C ! 1) = Some ?mc"
    by (simp add: eval_match RE_TOTAL_BAL_def)
  have cv: "group ?mc 1 = Some (ustr ''1,250.00'')" by (simp add: eval_match)
  have cc: "search RE_CURRENCY (ustr ''1,250.00'') = Some ?amt"
    by (simp add: eval_match RE_CURRENCY_def)
  have ca: "group ?amt 0 = Some (ustr ''1,250.00'')" by (simp add: eval_match)
  have cs: "snippet_around (?C ! 1) (span ?mc) 40 = ustr ''Total Due: 1,250.00''"
    by (simp add: eval_match)
  from first_matching_page [of 1 ?C ?mc] c0 c1
  have "\<exists>g. group ?mc 1 = Some g
           \<and> extract_total_balance ?C =
               Inr (case search RE_CURRENCY g of
                      Some amt \<Rightarrow>
                        \<lparr>value = group amt 0, page = Some (1 + 1),
                         snippet = Some (snippet_around (?C ! 1) (span ?mc) 40),
                         confidence = 0.95, notes = None\<rparr>
                    | None \<Rightarrow>
                        \<lparr>value = Some (normalize_spaces g), page = Some (1 + 1),
                         snippet = Some (snippet_around (?C ! 1) (span ?mc) 40),
                         confidence = 0.8, notes = None\<rparr>)"
    by simp
  then have "extract_total_balance ?C =
               Inr (case search RE_CURRENCY (ustr ''1,250.00'') of
                      Some amt \<Rightarrow>
                        \<lparr>value = group amt 0, page = Some (1 + 1),
                         snippet = Some (snippet_around (?C ! 1) (span ?mc) 40),
                         confidence = 0.95, notes = None\<rparr>
                    | None \<Rightarrow>
                        \<lparr>value = Some (normalize_spaces (ustr ''1,250.00'')), page = Some (1 + 1),
                         snippet = Some (snippet_around (?C ! 1) (span ?mc) 40),
                         confidence = 0.8, notes = None\<rparr>)"
    unfolding cv by blast
  then have rc: "extract_total_balance ?C =
         Inr \<lparr>value = Some (ustr ''1,250.00''), page = Some 2,
              snippet = Some (ustr ''Total Due: 1,250.00''),
              confidence = 0.95, notes = None\<rparr>"
    by (simp only: cc option.case ca cs one_add_one)

  let ?D = "[ustr ''Due Date: see below'', ustr ''Due Date: 04/15/2024'',
          ustr ''Due Date: 01/01/2025'']"
  let ?md = "\<lparr>m_string = ustr ''Due Date: 04/15/2024'', m_start = 0, m_end = 20, m_groups = [(1, 10, 20)]\<rparr>"
  have d0: "\<forall>j<1. due_date_on_page (?D ! j) = None"
    by (simp add: due_date_on_page_def eval_match RE_DUE_def RE_DATE_def RE_DATE_WORD_def)
  have d1: "due_date_on_page (?D ! 1) = Some (?md, ustr ''04/15/2024'')"
    by (simp add: due_date_on_page_def eval_match RE_DUE_def RE_DATE_def)
  have dn: "normalize_spaces (ustr ''04/15/2024'') = ustr ''04/15/2024''"
    by (simp add: eval_match)
  have ds: "snippet_around (?D ! 1) (span ?md) 40 = ustr ''Due Date: 04/15/2024''"
    by (simp add: eval_match)
  from first_matching_page [of 1 ?D ?md "ustr ''04/15/2024''"] d0 d1
  have "extract_due_date ?D =
          Inr \<lparr>value = Some (normalize_spaces (ustr ''04/15/2024'')), page = Some (1 + 1),
               snippet = Some (snippet_around (?D ! 1) (span ?md) 40),
               confidence = 0.95, notes = None\<rparr>"
    by simp
  then have rd: "extract_due_date ?D =
         Inr \<lparr>value = Some (ustr ''04/15/2024''), page = Some 2,
              snippet = Some (ustr ''Due Date: 04/15/2024''),
              confidence = 0.95, notes = None\<rparr>"
    by (simp only: dn ds one_add_one)
  from a0 a1 ra b0 b1 rb c0 c1 rc d0 d1 rd show ?thesis by simp
qed

text \<open>
  Claim C1 as stated fails for \<open>extract_due_date\<close>: the label pattern matches on the
  first page, whose phrase holds no date, and the result comes from the second page.
\<close>

theorem first_matching_page_counterexample:
  "search RE_DUE ([ustr ''Due Date: see below'', ustr ''Due Date: 04/15/2024''] ! 0) =
     Some \<lparr>m_string = ustr ''Due Date: see below'', m_start = 0, m_end = 19, m_groups = [(1, 10, 19)]\<rparr>
   \<and> extract_due_date [ustr ''Due Date: see below'', ustr ''Due Date: 04/15/2024''] =
       Inr \<lparr>value = Some (ustr ''04/15/2024''), page = Some 2,
            snippet = Some (ustr ''Due Date: 04/15/2024''),
            confidence = 0.95, notes = None\<rparr>"
  by (simp add: extract_due_date_def eval_match RE_DUE_def RE_DATE_def RE_DATE_WORD_def)

section \<open>The text of a group\<close>

lemma ms_position:
  assumes "(rest', p', c') \<in> set (ms ic r (drop pos s, pos, caps))" and "pos \<le> length s"
  shows "rest' = drop p' s \<and> pos \<le> p' \<and> p' \<le> length s
         \<and> lang ic r (slice s pos p')"
proof -
  from ms_sound [OF assms(1)] obtain w where w: "drop pos s = w @ rest'" "p' = pos + length w"
    "lang ic r w" by blast
  have "drop p' s = drop (length w) (drop pos s)" using w(2) by (simp add: add.commute)
  with w(1) have r: "rest' = drop p' s" by simp
  have "length (drop pos s) = length w + length rest'" using w(1) by simp
  with assms(2) w(2) have le: "p' \<le> length s" by simp
  have "slice s pos p' = take (length w) (drop pos s)" using w(2) by (simp add: slice_def)
  with w(1) have "slice s pos p' = w" by simp
  with r le w show ?thesis by simp
qed

lemma ms_final_group:
  "final_group r = Some (g, body) \<Longrightarrow>
   (rest', p', c') \<in> set (ms ic r (drop pos s, pos, caps)) \<Longrightarrow> pos \<le> length s \<Longrightarrow>
   \<exists>i. map_of c' g = Some (i, p') \<and> lang ic body (slice s i p')"
proof (induction r arbitrary: pos caps)
  case (Seq r1 r2)
  from Seq.prems(2) obtain rest1 p1 c1 where
    a: "(rest1, p1, c1) \<in> set (ms ic r1 (drop pos s, pos, caps))" and
    b: "(rest', p', c') \<in> set (ms ic r2 (rest1, p1, c1))"
    by auto
  from ms_position [OF a Seq.prems(3)] have r1: "rest1 = drop p1 s" "p1 \<le> length s" by auto
  from Seq.prems(1) have f: "final_group r2 = Some (g, body)" by simp
  from b r1(1) have "(rest', p', c') \<in> set (ms ic r2 (drop p1 s, p1, c1))" by simp
  from Seq.IH(2) [OF f this r1(2)] show ?case .
next
  case (Grp g' r)
  from Grp.prems(1) have gb: "g' = g" "r = body" by auto
  from Grp.prems(2) obtain c'' where c'': "c' = (g', pos, p') # c''"
    "(rest', p', c'') \<in> set (ms ic r (drop pos s, pos, caps))"
    by auto
  from ms_position [OF c''(2) Grp.prems(3)] have "lang ic r (slice s pos p')" by simp
  with gb c''(1) show ?case by (intro exI [of _ pos]) simp
qed simp_all

lemma search_final_group:
  assumes "search p s = Some m" and "final_group (p_re p) = Some (g, body)" and "g \<noteq> 0"
  shows "\<exists>v. group m g = Some v \<and> lang (p_ignorecase p) body v"
proof -
  from search_Some [OF assms(1)] obtain rest' where m: "m_start m \<le> length s" "m_string m = s"
    "(rest', m_end m, m_groups m)
       \<in> set (ms (p_ignorecase p) (p_re p) (drop (m_start m) s, m_start m, []))"
    by blast
  from ms_final_group [OF assms(2) m(3) m(1)] obtain i where
    "map_of (m_groups m) g = Some (i, m_end m)" "lang (p_ignorecase p) body (slice s i (m_end m))"
    by blast
  with m(2) assms(3) show ?thesis by (simp add: group_def)
qed

lemma search_whole_match:
  assumes "search p s = Some m"
  shows "\<exists>w. group m 0 = Some w \<and> lang (p_ignorecase p) (p_re p) w \<and> contains w s"
proof -
  from search_Some [OF assms] obtain rest' where m: "m_start m \<le> length s" "m_string m = s"
    "(rest', m_end m, m_groups m)
       \<in> set (ms (p_ignorecase p) (p_re p) (drop (m_start m) s, m_start m, []))"
    by blast
  from ms_position [OF m(3) m(1)] have l: "lang (p_ignorecase p) (p_re p) (slice s (m_start m) (m_end m))"
    and le: "m_start m \<le> m_end m" "m_end m \<le> length s"
    by auto
  have "s = take (m_start m) s @ slice s (m_start m) (m_end m) @ drop (m_end m) s"
  proof -
    have "drop (m_start m) s = take (m_end m - m_start m) (drop (m_start m) s)
        @ drop (m_end m - m_start m) (drop (m_start m) s)"
      by (rule append_take_drop_id [symmetric])
    also have "drop (m_end m - m_start m) (drop (m_start m) s) = drop (m_end m) s"
      using le by simp
    finally have "drop (m_start m) s = slice s (m_start m) (m_end m) @ drop (m_end m) s"
      by (simp add: slice_def)
    then have "take (m_start m) s @ drop (m_start m) s
        = take (m_start m) s @ slice s (m_start m) (m_end m) @ drop (m_end m) s"
      by simp
    then show ?thesis by simp
  qed
  then have "contains (slice s (m_start m) (m_end m)) s"
    unfolding contains_iff by blast
  with l m(2) show ?thesis by (simp add: group_def)
qed

lemma lang_search:
  assumes "lang (p_ignorecase p) (p_re p) w"
  shows "search p w \<noteq> None"
proof -
  from ms_complete [OF assms, of "[]" 0 "[]"]
  have "ms (p_ignorecase p) (p_re p) (w, 0, []) \<noteq> []" by auto
  then show ?thesis by (rule search_nonempty)
qed

section \<open>Patterns without cased characters\<close>

lemma case_variants_self: "c \<in> set (case_variants c)"
  by (simp add: case_variants_def)

lemma case_variants_cased: "v \<in> set (case_variants c) \<Longrightarrow> v = c \<or> cased v"
  by (auto simp: case_variants_def cased_def split: if_splits)

lemma atom_ok_caseless:
  assumes "\<And>x. atom_plain a x \<Longrightarrow> \<not> cased x"
  shows "atom_ok True a = atom_ok False a"
proof
  fix c
  show "atom_ok True a c = atom_ok False a c"
  proof
    assume "atom_ok True a c"
    then obtain v where v: "v \<in> set (case_variants c)" "atom_plain a v"
      by (auto simp: atom_ok_def list_ex_iff)
    from assms [OF v(2)] case_variants_cased [OF v(1)] have "v = c" by blast
    with v(2) show "atom_ok False a c" by (simp add: atom_ok_def)
  next
    assume "atom_ok False a c"
    with case_variants_self [of c] show "atom_ok True a c"
      by (auto simp: atom_ok_def list_ex_iff)
  qed
qed

lemma is_decimal_not_cased: "is_decimal c \<Longrightarrow> \<not> cased c"
  by (auto simp: is_decimal_def decimal_blocks_def cased_def)

lemma is_space_not_cased: "is_space c \<Longrightarrow> \<not> cased c"
  by (auto simp: is_space_def cased_def)

lemma currency_atoms_caseless:
  "atom_ok True (Lit 8377) = atom_ok False (Lit 8377)"
  "atom_ok True (Lit 46) = atom_ok False (Lit 46)"
  "atom_ok True (Cls [Space]) = atom_ok False (Cls [Space])"
  "atom_ok True (Cls [Digit]) = atom_ok False (Cls [Digit])"
  "atom_ok True (Cls [Single 44, Digit]) = atom_ok False (Cls [Single 44, Digit])"
  by (rule atom_ok_caseless; auto simp: cased_def dest: is_decimal_not_cased is_space_not_cased)+

section \<open>The total balance\<close>

lemma final_group_total_bal:
  "final_group (p_re RE_TOTAL_BAL) = Some (1, p_re RE_CURRENCY)"
  by (simp add: RE_TOTAL_BAL_def RE_CURRENCY_def)

lemma lang_currency_caseless:
  "lang True (p_re RE_CURRENCY) w = lang False (p_re RE_CURRENCY) w"
  by (simp add: RE_CURRENCY_def ws_star_def currency_atoms_caseless)

lemma total_bal_group_currency:
  assumes "search RE_TOTAL_BAL t = Some m"
  shows "\<exists>g. group m 1 = Some g \<and> search RE_CURRENCY g \<noteq> None"
proof -
  have ic: "p_ignorecase RE_TOTAL_BAL = True" "p_ignorecase RE_CURRENCY = False"
    by (simp_all add: RE_TOTAL_BAL_def RE_CURRENCY_def)
  from search_final_group [OF assms final_group_total_bal] obtain g where
    g: "group m 1 = Some g" "lang True (p_re RE_CURRENCY) g"
    by (auto simp: ic)
  from g(2) have "lang (p_ignorecase RE_CURRENCY) (p_re RE_CURRENCY) g"
    by (simp add: ic lang_currency_caseless)
  from lang_search [OF this] g(1) show ?thesis by blast
qed

lemma total_balance_from_confidence:
  "\<exists>e. extract_total_balance_from i pages = Inr e
       \<and> (value e \<noteq> None \<longrightarrow> confidence e = 0.95) \<and> confidence e \<noteq> 0.8"
proof (induction pages arbitrary: i)
  case Nil
  show ?case by (simp add: not_found_def)
next
  case (Cons t rest)
  show ?case
  proof (cases "search RE_TOTAL_BAL t")
    case None
    with Cons show ?thesis by simp
  next
    case (Some m)
    from total_bal_group_currency [OF Some] obtain g amt where
      "group m 1 = Some g" "search RE_CURRENCY g = Some amt" by auto
    with Some show ?thesis by simp
  qed
qed

text \<open>
  Claim C10: the phrase that the total-balance pattern captures is itself of the
  currency shape, so the inner search for a currency token always succeeds; whenever
  \<open>extract_total_balance\<close> returns a value its confidence is 0.95, and the branch with
  confidence 0.8 is never taken.
\<close>

theorem total_balance_confidence:
  "(search RE_TOTAL_BAL t = Some m \<and> group m 1 = Some g \<longrightarrow> search RE_CURRENCY g \<noteq> None)
   \<and> (\<exists>e. extract_total_balance pages = Inr e
          \<and> (value e \<noteq> None \<longrightarrow> confidence e = 0.95) \<and> confidence e \<noteq> 0.8)"
proof -
  have a: "search RE_TOTAL_BAL t = Some m \<and> group m 1 = Some g \<longrightarrow> search RE_CURRENCY g \<noteq> None"
    using total_bal_group_currency [of t m] by auto
  from a total_balance_from_confidence [of 0 pages] show ?thesis
    unfolding extract_total_balance_def by blast
qed

lemma total_balance_example:
  "extract_total_balance [ustr ''Total Amount Due: '' @ 8377 # ustr ''12,345.67''] =
     Inr \<lparr>value = Some (8377 # ustr ''12,345.67''), page = Some 1,
          snippet = Some (ustr ''Total Amount Due: '' @ 8377 # ustr ''12,345.67''),
          confidence = 0.95, notes = None\<rparr>"
  by (simp add: extract_total_balance_def eval_match RE_TOTAL_BAL_def RE_CURRENCY_def)

theorem total_balance_confidence_witness:
  "search RE_TOTAL_BAL (ustr ''Total Due: 1,250.00'') =
     Some \<lparr>m_string = ustr ''Total Due: 1,250.00'', m_start = 0, m_end = 19,
           m_groups = [(1, 11, 19)]\<rparr>
   \<and> group \<lparr>m_string = ustr ''Total Due: 1,250.00'', m_start = 0, m_end = 19,
           m_groups = [(1, 11, 19)]\<rparr> 1 = Some (ustr ''1,250.00'')
   \<and> search RE_CURRENCY (ustr ''1,250.00'') \<noteq> None
   \<and> (\<exists>e. extract_total_balance [ustr ''Total Amount Due: '' @ 8377 # ustr ''12,345.67''] = Inr e
          \<and> value e \<noteq> None \<and> confidence e = 0.95)"
proof -
  let ?t = "ustr ''Total Due: 1,250.00''"
  let ?m = "\<lparr>m_string = ustr ''Total Due: 1,250.00'', m_start = 0, m_end = 19,
           m_groups = [(1, 11, 19)]\<rparr>"
  let ?P = "[ustr ''Total Amount Due: '' @ 8377 # ustr ''12,345.67'']"
  have s: "search RE_TOTAL_BAL ?t = Some ?m"
    by (simp add: eval_match RE_TOTAL_BAL_def)
  have g: "group ?m 1 = Some (ustr ''1,250.00'')" by (simp add: eval_match)
  note inst = total_balance_confidence [of ?t ?m "ustr ''1,250.00''" ?P]
  from inst s g have c: "search RE_CURRENCY (ustr ''1,250.00'') \<noteq> None" by blast
  from inst obtain e where e: "extract_total_balance ?P = Inr e"
    "value e \<noteq> None \<longrightarrow> confidence e = 0.95" by blast
  from e(1) have "value e \<noteq> None" by (auto simp: total_balance_example)
  with e have "\<exists>e. extract_total_balance ?P = Inr e \<and> value e \<noteq> None \<and> confidence e = 0.95"
    by blast
  with s g c show ?thesis by blast
qed

lemma length_two: "length xs = 2 \<Longrightarrow> \<exists>a b. xs = [a, b]"
  by (cases xs; cases "tl xs") auto

lemma lang_SeqE:
  "lang ic (Seq r1 r2) w \<Longrightarrow>
   (\<And>u v. w = u @ v \<Longrightarrow> lang ic r1 u \<Longrightarrow> lang ic r2 v \<Longrightarrow> thesis) \<Longrightarrow> thesis"
  by auto

lemma currency_shape:
  assumes "lang False (p_re RE_CURRENCY) tok"
  shows "\<exists>r w b f. tok = r @ w @ b @ f \<and> (r = [] \<or> r = [8377]) \<and> list_all is_space w
           \<and> b \<noteq> [] \<and> list_all (\<lambda>c. c = 44 \<or> is_decimal c) b
           \<and> (f = [] \<or> (\<exists>d1 d2. f = [46, d1, d2] \<and> is_decimal d1 \<and> is_decimal d2))"
proof -
  from assms have "lang False
      (Seq (Opt (Chr (Lit 8377)))
      (Seq ws_star
      (Seq (Rep (Cls [Single 44, Digit]) 1 None)
           (Opt (Seq (Chr (Lit 46)) (Rep (Cls [Digit]) 2 (Some 2))))))) tok"
    by (simp only: RE_CURRENCY_def pattern.select_convs)
  then obtain r v1 where r: "tok = r @ v1" "lang False (Opt (Chr (Lit 8377))) r"
    and v1: "lang False (Seq ws_star (Seq (Rep (Cls [Single 44, Digit]) 1 None)
               (Opt (Seq (Chr (Lit 46)) (Rep (Cls [Digit]) 2 (Some 2)))))) v1"
    by (rule lang_SeqE)
  from v1 obtain w v2 where w: "v1 = w @ v2" "lang False ws_star w"
    and v2: "lang False (Seq (Rep (Cls [Single 44, Digit]) 1 None)
               (Opt (Seq (Chr (Lit 46)) (Rep (Cls [Digit]) 2 (Some 2))))) v2"
    by (rule lang_SeqE)
  from v2 obtain b f where b: "v2 = b @ f" "lang False (Rep (Cls [Single 44, Digit]) 1 None) b"
    and f: "lang False (Opt (Seq (Chr (Lit 46)) (Rep (Cls [Digit]) 2 (Some 2)))) f"
    by (rule lang_SeqE)
  from r(2) have r': "r = [] \<or> r = [8377]" by (auto simp: atom_ok_def)
  from w(2) have w': "list_all is_space w" by (auto simp: ws_star_def atom_ok_def list_all_iff)
  from b(2) have b': "b \<noteq> []" "list_all (\<lambda>c. c = 44 \<or> is_decimal c) b"
    by (auto simp: atom_ok_def list_all_iff)
  have f': "f = [] \<or> (\<exists>d1 d2. f = [46, d1, d2] \<and> is_decimal d1 \<and> is_decimal d2)"
  proof (cases "f = []")
    case True
    then show ?thesis by simp
  next
    case False
    with f obtain ds where ds: "f = 46 # ds" "length ds = 2" "list_all is_decimal ds"
      by (auto simp: atom_ok_def list_all_iff)
    from length_two [OF ds(2)] obtain d1 d2 where "ds = [d1, d2]" by blast
    with ds show ?thesis by simp
  qed
  from r(1) w(1) b(1) have "tok = r @ w @ b @ f" by simp
  with r' w' b' f' show ?thesis by blast
qed

text \<open>
  Claim C4, as amended: on the page where \<open>extract_total_balance\<close> matches the label,
  the captured phrase always holds a token of the shape of \<open>RE_CURRENCY\<close>: an optional
  rupee sign, optional whitespace, one or more characters each of which is a digit or a
  comma, and an optional period with two digits. That token is the value, with
  confidence 0.95; the branch that returns the normalized phrase with confidence 0.8
  is never taken. On the page ``Total Amount Due: '' followed by the rupee sign and
  ``12,345.67'' the value contains ``12,345.67'' and the confidence is 0.95.
\<close>

theorem total_balance_value:
  "((\<forall>p\<in>set pre. search RE_TOTAL_BAL p = None) \<and> search RE_TOTAL_BAL t = Some m
     \<longrightarrow> (\<exists>g amt tok r w b f.
           group m 1 = Some g \<and> search RE_CURRENCY g = Some amt \<and> group amt 0 = Some tok
           \<and> contains tok g
           \<and> tok = r @ w @ b @ f \<and> (r = [] \<or> r = [8377]) \<and> list_all is_space w
           \<and> b \<noteq> [] \<and> list_all (\<lambda>c. c = 44 \<or> is_decimal c) b
           \<and> (f = [] \<or> (\<exists>d1 d2. f = [46, d1, d2] \<and> is_decimal d1 \<and> is_decimal d2))
           \<and> extract_total_balance (pre @ t # post) =
               Inr \<lparr>value = Some tok, page = Some (length pre + 1),
                    snippet = Some (snippet_around t (span m) 40),
                    confidence = 0.95, notes = None\<rparr>))
   \<and> extract_total_balance [ustr ''Total Amount Due: '' @ 8377 # ustr ''12,345.67''] =
       Inr \<lparr>value = Some (8377 # ustr ''12,345.67''), page = Some 1,
            snippet = Some (ustr ''Total Amount Due: '' @ 8377 # ustr ''12,345.67''),
            confidence = 0.95, notes = None\<rparr>
   \<and> contains (ustr ''12,345.67'') (8377 # ustr ''12,345.67'')"
proof -
  have a: "(\<forall>p\<in>set pre. search RE_TOTAL_BAL p = None) \<and> search RE_TOTAL_BAL t = Some m
     \<longrightarrow> (\<exists>g amt tok r w b f.
           group m 1 = Some g \<and> search RE_CURRENCY g = Some amt \<and> group amt 0 = Some tok
           \<and> contains tok g
           \<and> tok = r @ w @ b @ f \<and> (r = [] \<or> r = [8377]) \<and> list_all is_space w
           \<and> b \<noteq> [] \<and> list_all (\<lambda>c. c = 44 \<or> is_decimal c) b
           \<and> (f = [] \<or> (\<exists>d1 d2. f = [46, d1, d2] \<and> is_decimal d1 \<and> is_decimal d2))
           \<and> extract_total_balance (pre @ t # post) =
               Inr \<lparr>value = Some tok, page = Some (length pre + 1),
                    snippet = Some (snippet_around t (span m) 40),
                    confidence = 0.95, notes = None\<rparr>)"
  proof (intro impI; elim conjE)
    assume pre: "\<forall>p\<in>set pre. search RE_TOTAL_BAL p = None"
      and h: "search RE_TOTAL_BAL t = Some m"
    from total_bal_group_currency [OF h] obtain g amt where
      g: "group m 1 = Some g" and amt: "search RE_CURRENCY g = Some amt" by auto
    from search_whole_match [OF amt] obtain tok where
      tok: "group amt 0 = Some tok" "lang (p_ignorecase RE_CURRENCY) (p_re RE_CURRENCY) tok"
        "contains tok g"
      by blast
    from tok(2) have "lang False (p_re RE_CURRENCY) tok" by (simp add: RE_CURRENCY_def)
    from currency_shape [OF this] obtain r w b f where
      sh: "tok = r @ w @ b @ f" "r = [] \<or> r = [8377]" "list_all is_space w" "b \<noteq> []"
        "list_all (\<lambda>c. c = 44 \<or> is_decimal c) b"
        "f = [] \<or> (\<exists>d1 d2. f = [46, d1, d2] \<and> is_decimal d1 \<and> is_decimal d2)"
      by blast
    from extract_total_balance_from_first [OF pre h g, of 0 post] amt tok(1)
    have "extract_total_balance (pre @ t # post) =
               Inr \<lparr>value = Some tok, page = Some (length pre + 1),
                    snippet = Some (snippet_around t (span m) 40),
                    confidence = 0.95, notes = None\<rparr>"
      by (simp add: extract_total_balance_def)
    with g amt tok(1,3) sh show "\<exists>g amt tok r w b f.
           group m 1 = Some g \<and> search RE_CURRENCY g = Some amt \<and> group amt 0 = Some tok
           \<and> contains tok g
           \<and> tok = r @ w @ b @ f \<and> (r = [] \<or> r = [8377]) \<and> list_all is_space w
           \<and> b \<noteq> [] \<and> list_all (\<lambda>c. c = 44 \<or> is_decimal c) b
           \<and> (f = [] \<or> (\<exists>d1 d2. f = [46, d1, d2] \<and> is_decimal d1 \<and> is_decimal d2))
           \<and> extract_total_balance (pre @ t # post) =
               Inr \<lparr>value = Some tok, page = Some (length pre + 1),
                    snippet = Some (snippet_around t (span m) 40),
                    confidence = 0.95, notes = None\<rparr>"
      by blast
  qed
  have c: "contains (ustr ''12,345.67'') (8377 # ustr ''12,345.67'')"
    by (simp add: ustr_def prefix_code)
  from a c total_balance_example show ?thesis by blast
qed

theorem total_balance_value_witness:
  "search RE_TOTAL_BAL (ustr ''Statement'') = None
   \<and> search RE_TOTAL_BAL (ustr ''Total Due: 1,250.00'') =
       Some \<lparr>m_string = ustr ''Total Due: 1,250.00'', m_start = 0, m_end = 19,
             m_groups = [(1, 11, 19)]\<rparr>
   \<and> extract_total_balance ([ustr ''Statement''] @ ustr ''Total Due: 1,250.00'' # [ustr ''Total Due: 7'']) =
       Inr \<lparr>value = Some (ustr ''1,250.00''), page = Some 2,
            snippet = Some (ustr ''Total Due: 1,250.00''),
            confidence = 0.95, notes = None\<rparr>"
proof -
  let ?t = "ustr ''Total Due: 1,250.00''"
  let ?m = "\<lparr>m_string = ustr ''Total Due: 1,250.00'', m_start = 0, m_end = 19,
           m_groups = [(1, 11, 19)]\<rparr>"
  let ?g = "ustr ''1,250.00''"
  let ?amt = "\<lparr>m_string = ustr ''1,250.00'', m_start = 0, m_end = 8, m_groups = []\<rparr>"
  have p: "\<forall>p\<in>set [ustr ''Statement'']. search RE_TOTAL_BAL p = None"
    by (simp add: eval_match RE_TOTAL_BAL_def)
  have s: "search RE_TOTAL_BAL ?t = Some ?m"
    by (simp add: eval_match RE_TOTAL_BAL_def)
  have gv: "group ?m 1 = Some ?g" by (simp add: eval_match)
  have cc: "search RE_CURRENCY ?g = Some ?amt"
    by (simp add: eval_match RE_CURRENCY_def)
  have ca: "group ?amt 0 = Some ?g" by (simp add: eval_match)
  have sn: "snippet_around ?t (span ?m) 40 = ?t" by (simp add: eval_match)
  from total_balance_value [of "[ustr ''Statement'']" ?t ?m "[ustr ''Total Due: 7'']"] p s
  obtain g amt tok where o: "group ?m 1 = Some g" "search RE_CURRENCY g = Some amt"
    "group amt 0 = Some tok"
    "extract_total_balance ([ustr ''Statement''] @ ?t # [ustr ''Total Due: 7'']) =
       Inr \<lparr>value = Some tok, page = Some (length [ustr ''Statement''] + 1),
            snippet = Some (snippet_around ?t (span ?m) 40),
            confidence = 0.95, notes = None\<rparr>"
    by blast
  from o(1) gv have "g = ?g" by simp
  with o(2) cc have "amt = ?amt" by simp
  with o(3) ca have "tok = ?g" by simp
  with o(4) have "extract_total_balance ([ustr ''Statement''] @ ?t # [ustr ''Total Due: 7'']) =
       Inr \<lparr>value = Some ?g, page = Some (length [ustr ''Statement''] + 1),
            snippet = Some ?t, confidence = 0.95, notes = None\<rparr>"
    by (simp only: sn)
  then have r: "extract_total_balance ([ustr ''Statement''] @ ?t # [ustr ''Total Due: 7'']) =
       Inr \<lparr>value = Some ?g, page = Some 2, snippet = Some ?t,
            confidence = 0.95, notes = None\<rparr>"
    by simp
  from p have p': "search RE_TOTAL_BAL (ustr ''Statement'') = None" by simp
  from p' s r show ?thesis by blast
qed

text \<open>
  Claim C4 as stated fails: on a page where the label is followed by a comma the phrase
  captured is the comma alone. It holds no digit, so no token of digit groups is found
  in it, and the claim gives the normalized phrase with confidence 0.8; the code
  returns the comma with confidence 0.95.
\<close>

theorem total_balance_value_counterexample:
  "search RE_TOTAL_BAL (ustr ''Amount Due, as shown overleaf'') =
     Some \<lparr>m_string = ustr ''Amount Due, as shown overleaf'', m_start = 0, m_end = 11,
           m_groups = [(1, 10, 11)]\<rparr>
   \<and> group \<lparr>m_string = ustr ''Amount Due, as shown overleaf'', m_start = 0, m_end = 11,
           m_groups = [(1, 10, 11)]\<rparr> 1 = Some (ustr '','')
   \<and> \<not> list_ex is_decimal (ustr '','')
   \<and> extract_total_balance [ustr ''Amount Due, as shown overleaf''] =
       Inr \<lparr>value = Some (ustr '',''), page = Some 1,
            snippet = Some (ustr ''Amount Due, as shown overleaf''),
            confidence = 0.95, notes = None\<rparr>"
proof -
  have a: "search RE_TOTAL_BAL (ustr ''Amount Due, as shown overleaf'') =
     Some \<lparr>m_string = ustr ''Amount Due, as shown overleaf'', m_start = 0, m_end = 11,
           m_groups = [(1, 10, 11)]\<rparr>"
    by (simp add: eval_match RE_TOTAL_BAL_def)
  have b: "group \<lparr>m_string = ustr ''Amount Due, as shown overleaf'', m_start = 0, m_end = 11,
           m_groups = [(1, 10, 11)]\<rparr> 1 = Some (ustr '','')"
    by (simp add: eval_match)
  have c: "\<not> list_ex is_decimal (ustr '','')"
    by (simp add: ustr_def is_decimal_low)
  have d: "extract_total_balance [ustr ''Amount Due, as shown overleaf''] =
       Inr \<lparr>value = Some (ustr '',''), page = Some 1,
            snippet = Some (ustr ''Amount Due, as shown overleaf''),
            confidence = 0.95, notes = None\<rparr>"
    by (simp add: extract_total_balance_def eval_match RE_TOTAL_BAL_def RE_CURRENCY_def)
  from a b c d show ?thesis by blast
qed

section \<open>The due date\<close>

lemma search_top_group:
  assumes "search p s = Some m" and "p_re p = Grp g body" and "g \<noteq> 0"
  shows "group m g = group m 0"
proof -
  from search_Some [OF assms(1)] obtain rest' where
    "(rest', m_end m, m_groups m)
       \<in> set (ms (p_ignorecase p) (p_re p) (drop (m_start m) s, m_start m, []))"
    by blast
  then have "(rest', m_end m, m_groups m)
       \<in> set (ms (p_ignorecase p) (Grp g body) (drop (m_start m) s, m_start m, []))"
    by (simp only: assms(2))
  then obtain c'' where "m_groups m = (g, m_start m, m_end m) # c''" by auto
  with assms(3) show ?thesis by (simp add: group_def)
qed

lemma search_date_shape:
  assumes "search p g = Some d" and "p_re p = Grp 1 body"
  shows "\<exists>v. group d 1 = Some v \<and> fullmatch p v \<and> contains v g"
proof -
  from search_whole_match [OF assms(1)] obtain w where
    w: "group d 0 = Some w" "lang (p_ignorecase p) (p_re p) w" "contains w g" by blast
  from search_top_group [OF assms(1) assms(2)] w(1) have "group d 1 = Some w" by simp
  with w show ?thesis by (auto simp: fullmatch_iff_lang)
qed

lemma is_decimal_not_space: "is_decimal c \<Longrightarrow> \<not> is_space c"
  by (auto simp: is_decimal_def decimal_blocks_def is_space_def)

lemma tidy_no_space: "\<forall>c\<in>set v. \<not> is_space c \<Longrightarrow> tidy v"
  by (induction v rule: tidy.induct) auto

lemma normalize_spaces_no_space:
  assumes "\<forall>c\<in>set v. \<not> is_space c"
  shows "normalize_spaces v = v"
proof -
  from tidy_no_space [OF assms] have c: "collapse_spaces v = v" by (rule collapse_spaces_tidy)
  from assms have "dropWhile is_space v = v" by (cases v) auto
  moreover from assms have "dropWhile is_space (rev v) = rev v" by (cases "rev v") auto
  ultimately have "strip v = v" by (simp add: strip_def)
  with c show ?thesis by (simp add: normalize_spaces_def)
qed

lemma atom_ok_digit: "atom_ok False (Cls [Digit]) = is_decimal"
  by (auto simp: atom_ok_def fun_eq_iff)

lemma slash_dash_not_space: "\<not> is_space 47" "\<not> is_space 45"
  by (simp_all add: is_space_def)

lemma numeric_date_no_space:
  assumes "fullmatch RE_DATE v"
  shows "\<forall>c\<in>set v. \<not> is_space c"
proof -
  from assms have "lang False (p_re RE_DATE) v" by (simp add: fullmatch_iff_lang RE_DATE_def)
  then show ?thesis
    by (auto simp: RE_DATE_def atom_ok_digit atom_ok_def list_all_iff slash_dash_not_space;
        blast dest: is_decimal_not_space)
qed


lemma due_date_examples:
  "extract_due_date [ustr ''Due Date: 04/15/2024''] =
       Inr \<lparr>value = Some (ustr ''04/15/2024''), page = Some 1,
            snippet = Some (ustr ''Due Date: 04/15/2024''), confidence = 0.95, notes = None\<rparr>"
  "extract_due_date [ustr ''Due Date: March 5, 2024''] =
       Inr \<lparr>value = Some (ustr ''March 5, 2024''), page = Some 1,
            snippet = Some (ustr ''Due Date: March 5, 2024''), confidence = 0.95, notes = None\<rparr>"
  by (simp_all add: extract_due_date_def eval_match RE_DUE_def RE_DATE_def RE_DATE_WORD_def)

text \<open>
  Claim C5, as amended: in the phrase captured after the label, \<open>extract_due_date\<close>
  searches first for a numeric date (one or two digits, a slash or a dash, one or two
  digits, a slash or a dash, two to four digits) and, only when there is none, for a
  worded date (a capital letter and two to eight small letters, whitespace, one or two
  digits, a comma, optional whitespace, four digits). The value is the matched part of
  the phrase, not the whole phrase: as it stands for a numeric date, with its
  whitespace normalized for a worded one. The two examples of the claim hold.
\<close>

theorem due_date_value:
  "(search RE_DUE t = Some m \<and> group m 1 = Some g \<and> search RE_DATE g = Some d
     \<longrightarrow> (\<exists>v. group d 1 = Some v \<and> fullmatch RE_DATE v \<and> contains v g
           \<and> extract_due_date (t # rest) =
               Inr \<lparr>value = Some v, page = Some 1,
                    snippet = Some (snippet_around t (span m) 40),
                    confidence = 0.95, notes = None\<rparr>))
   \<and> (search RE_DUE t = Some m \<and> group m 1 = Some g \<and> search RE_DATE g = None
       \<and> search RE_DATE_WORD g = Some d
     \<longrightarrow> (\<exists>v. group d 1 = Some v \<and> fullmatch RE_DATE_WORD v \<and> contains v g
           \<and> extract_due_date (t # rest) =
               Inr \<lparr>value = Some (normalize_spaces v), page = Some 1,
                    snippet = Some (snippet_around t (span m) 40),
                    confidence = 0.95, notes = None\<rparr>))
   \<and> extract_due_date [ustr ''Due Date: 04/15/2024''] =
       Inr \<lparr>value = Some (ustr ''04/15/2024''), page = Some 1,
            snippet = Some (ustr ''Due Date: 04/15/2024''), confidence = 0.95, notes = None\<rparr>
   \<and> extract_due_date [ustr ''Due Date: March 5, 2024''] =
       Inr \<lparr>value = Some (ustr ''March 5, 2024''), page = Some 1,
            snippet = Some (ustr ''Due Date: March 5, 2024''), confidence = 0.95, notes = None\<rparr>"
proof -
  have a: "search RE_DUE t = Some m \<and> group m 1 = Some g \<and> search RE_DATE g = Some d
     \<longrightarrow> (\<exists>v. group d 1 = Some v \<and> fullmatch RE_DATE v \<and> contains v g
           \<and> extract_due_date (t # rest) =
               Inr \<lparr>value = Some v, page = Some 1,
                    snippet = Some (snippet_around t (span m) 40),
                    confidence = 0.95, notes = None\<rparr>)"
  proof (intro impI; elim conjE)
    assume h: "search RE_DUE t = Some m" "group m 1 = Some g" "search RE_DATE g = Some d"
    have "p_re RE_DATE = Grp 1 (Seq (Rep (Cls [Digit]) 1 (Some 2))
           (Seq (Chr (Cls [Single 47, Single 45]))
           (Seq (Rep (Cls [Digit]) 1 (Some 2))
           (Seq (Chr (Cls [Single 47, Single 45]))
                (Rep (Cls [Digit]) 2 (Some 4))))))"
      by (simp add: RE_DATE_def)
    from search_date_shape [OF h(3) this] obtain v where
      v: "group d 1 = Some v" "fullmatch RE_DATE v" "contains v g" by blast
    from normalize_spaces_no_space [OF numeric_date_no_space [OF v(2)]]
    have n: "normalize_spaces v = v" .
    from h v(1) n have "extract_due_date (t # rest) =
               Inr \<lparr>value = Some v, page = Some 1,
                    snippet = Some (snippet_around t (span m) 40),
                    confidence = 0.95, notes = None\<rparr>"
      by (simp add: extract_due_date_def date_search_def)
    with v show "\<exists>v. group d 1 = Some v \<and> fullmatch RE_DATE v \<and> contains v g
           \<and> extract_due_date (t # rest) =
               Inr \<lparr>value = Some v, page = Some 1,
                    snippet = Some (snippet_around t (span m) 40),
                    confidence = 0.95, notes = None\<rparr>"
      by blast
  qed
  have b: "search RE_DUE t = Some m \<and> group m 1 = Some g \<and> search RE_DATE g = None
       \<and> search RE_DATE_WORD g = Some d
     \<longrightarrow> (\<exists>v. group d 1 = Some v \<and> fullmatch RE_DATE_WORD v \<and> contains v g
           \<and> extract_due_date (t # rest) =
               Inr \<lparr>value = Some (normalize_spaces v), page = Some 1,
                    snippet = Some (snippet_around t (span m) 40),
                    confidence = 0.95, notes = None\<rparr>)"
  proof (intro impI; elim conjE)
    assume h: "search RE_DUE t = Some m" "group m 1 = Some g" "search RE_DATE g = None"
      "search RE_DATE_WORD g = Some d"
    have "p_re RE_DATE_WORD = Grp 1 (Seq (Chr (Cls [Range 65 90]))
           (Seq (Rep (Cls [Range 97 122]) 2 (Some 8))
           (Seq ws_plus
           (Seq (Rep (Cls [Digit]) 1 (Some 2))
           (Seq (Chr (Lit 44))
           (Seq ws_star
                (Rep (Cls [Digit]) 4 (Some 4))))))))"
      by (simp add: RE_DATE_WORD_def)
    from search_date_shape [OF h(4) this] obtain v where
      v: "group d 1 = Some v" "fullmatch RE_DATE_WORD v" "contains v g" by blast
    from h v(1) have "extract_due_date (t # rest) =
               Inr \<lparr>value = Some (normalize_spaces v), page = Some 1,
                    snippet = Some (snippet_around t (span m) 40),
                    confidence = 0.95, notes = None\<rparr>"
      by (simp add: extract_due_date_def date_search_def)
    with v show "\<exists>v. group d 1 = Some v \<and> fullmatch RE_DATE_WORD v \<and> contains v g
           \<and> extract_due_date (t # rest) =
               Inr \<lparr>value = Some (normalize_spaces v), page = Some 1,
                    snippet = Some (snippet_around t (span m) 40),
                    confidence = 0.95, notes = None\<rparr>"
      by blast
  qed
  from a b due_date_examples show ?thesis by blast
qed

theorem due_date_value_witness:
  "search RE_DUE (ustr ''Due Date: 12-31-99'') =
     Some \<lparr>m_string = ustr ''Due Date: 12-31-99'', m_start = 0, m_end = 18, m_groups = [(1, 10, 18)]\<rparr>
   \<and> search RE_DATE (ustr ''12-31-99'') =
     Some \<lparr>m_string = ustr ''12-31-99'', m_start = 0, m_end = 8, m_groups = [(1, 0, 8)]\<rparr>
   \<and> fullmatch RE_DATE (ustr ''12-31-99'')
   \<and> extract_due_date [ustr ''Due Date: 12-31-99''] =
       Inr \<lparr>value = Some (ustr ''12-31-99''), page = Some 1,
            snippet = Some (ustr ''Due Date: 12-31-99''), confidence = 0.95, notes = None\<rparr>
   \<and> search RE_DUE (ustr ''Due Date: June  7,2025'') =
     Some \<lparr>m_string = ustr ''Due Date: June  7,2025'', m_start = 0, m_end = 22, m_groups = [(1, 10, 22)]\<rparr>
   \<and> search RE_DATE (ustr ''June  7,2025'') = None
   \<and> search RE_DATE_WORD (ustr ''June  7,2025'') =
     Some \<lparr>m_string = ustr ''June  7,2025'', m_start = 0, m_end = 12, m_groups = [(1, 0, 12)]\<rparr>
   \<and> fullmatch RE_DATE_WORD (ustr ''June  7,2025'')
   \<and> extract_due_date [ustr ''Due Date: June  7,2025''] =
       Inr \<lparr>value = Some (ustr ''June 7,2025''), page = Some 1,
            snippet = Some (ustr ''Due Date: June 7,2025''), confidence = 0.95, notes = None\<rparr>"
proof -
  let ?t1 = "ustr ''Due Date: 12-31-99''"
  let ?m1 = "\<lparr>m_string = ustr ''Due Date: 12-31-99'', m_start = 0, m_end = 18, m_groups = [(1, 10, 18)]\<rparr>"
  let ?g1 = "ustr ''12-31-99''"
  let ?d1 = "\<lparr>m_string = ustr ''12-31-99'', m_start = 0, m_end = 8, m_groups = [(1, 0, 8)]\<rparr>"
  have s1: "search RE_DUE ?t1 = Some ?m1" by (simp add: eval_match RE_DUE_def)
  have g1: "group ?m1 1 = Some ?g1" by (simp add: eval_match)
  have d1: "search RE_DATE ?g1 = Some ?d1" by (simp add: eval_match RE_DATE_def)
  have v1: "group ?d1 1 = Some ?g1" by (simp add: eval_match)
  have n1: "snippet_around ?t1 (span ?m1) 40 = ?t1" by (simp add: eval_match)
  from due_date_value [of ?t1 ?m1 ?g1 ?d1 "[]"] s1 g1 d1
  obtain v where "group ?d1 1 = Some v" "fullmatch RE_DATE v"
    "extract_due_date [?t1] =
       Inr \<lparr>value = Some v, page = Some 1,
            snippet = Some (snippet_around ?t1 (span ?m1) 40),
            confidence = 0.95, notes = None\<rparr>"
    by blast
  with v1 n1 have r1: "fullmatch RE_DATE ?g1"
    "extract_due_date [?t1] = Inr \<lparr>value = Some (ustr ''12-31-99''), page = Some 1,
            snippet = Some (ustr ''Due Date: 12-31-99''), confidence = 0.95, notes = None\<rparr>"
    by simp_all

  let ?t2 = "ustr ''Due Date: June  7,2025''"
  let ?m2 = "\<lparr>m_string = ustr ''Due Date: June  7,2025'', m_start = 0, m_end = 22, m_groups = [(1, 10, 22)]\<rparr>"
  let ?g2 = "ustr ''June  7,2025''"
  let ?d2 = "\<lparr>m_string = ustr ''June  7,2025'', m_start = 0, m_end = 12, m_groups = [(1, 0, 12)]\<rparr>"
  have s2: "search RE_DUE ?t2 = Some ?m2" by (simp add: eval_match RE_DUE_def)
  have g2: "group ?m2 1 = Some ?g2" by (simp add: eval_match)
  have e2: "search RE_DATE ?g2 = None" by (simp add: eval_match RE_DATE_def)
  have d2: "search RE_DATE_WORD ?g2 = Some ?d2" by (simp add: eval_match RE_DATE_WORD_def)
  have v2: "group ?d2 1 = Some ?g2" by (simp add: eval_match)
  have n2: "snippet_around ?t2 (span ?m2) 40 = ustr ''Due Date: June 7,2025''"
    by (simp add: eval_match)
  have w2: "normalize_spaces ?g2 = ustr ''June 7,2025''" by (simp add: eval_match)
  from due_date_value [of ?t2 ?m2 ?g2 ?d2 "[]"] s2 g2 e2 d2
  obtain v where "group ?d2 1 = Some v" "fullmatch RE_DATE_WORD v"
    "extract_due_date [?t2] =
       Inr \<lparr>value = Some (normalize_spaces v), page = Some 1,
            snippet = Some (snippet_around ?t2 (span ?m2) 40),
            confidence = 0.95, notes = None\<rparr>"
    by blast
  with v2 n2 w2 have r2: "fullmatch RE_DATE_WORD ?g2"
    "extract_due_date [?t2] = Inr \<lparr>value = Some (ustr ''June 7,2025''), page = Some 1,
            snippet = Some (ustr ''Due Date: June 7,2025''), confidence = 0.95, notes = None\<rparr>"
    by simp_all
  from s1 d1 r1 s2 e2 d2 r2 show ?thesis by blast
qed

text \<open>
  Claim C5 as stated fails: a year of three digits is accepted, so the value need not
  have either shape of the claim; and the value of a worded date is normalized, so it
  need not occur in the page at all.
\<close>

theorem due_date_value_counterexample:
  "extract_due_date [ustr ''Due Date: 1/2/123''] =
       Inr \<lparr>value = Some (ustr ''1/2/123''), page = Some 1,
            snippet = Some (ustr ''Due Date: 1/2/123''), confidence = 0.95, notes = None\<rparr>
   \<and> \<not> fullmatch SPEC_DATE (ustr ''1/2/123'')
   \<and> \<not> fullmatch SPEC_DATE_WORD (ustr ''1/2/123'')
   \<and> extract_due_date [ustr ''Due Date: March  5,2024''] =
       Inr \<lparr>value = Some (ustr ''March 5,2024''), page = Some 1,
            snippet = Some (ustr ''Due Date: March 5,2024''), confidence = 0.95, notes = None\<rparr>
   \<and> \<not> contains (ustr ''March 5,2024'') (ustr ''Due Date: March  5,2024'')"
proof -
  have a: "extract_due_date [ustr ''Due Date: 1/2/123''] =
       Inr \<lparr>value = Some (ustr ''1/2/123''), page = Some 1,
            snippet = Some (ustr ''Due Date: 1/2/123''), confidence = 0.95, notes = None\<rparr>"
    by (simp add: extract_due_date_def eval_match RE_DUE_def RE_DATE_def)
  have b: "\<not> fullmatch SPEC_DATE (ustr ''1/2/123'')"
    by (simp add: fullmatch_def SPEC_DATE_def eval_match)
  have c: "\<not> fullmatch SPEC_DATE_WORD (ustr ''1/2/123'')"
    by (simp add: fullmatch_def SPEC_DATE_WORD_def eval_match)
  have d: "extract_due_date [ustr ''Due Date: March  5,2024''] =
       Inr \<lparr>value = Some (ustr ''March 5,2024''), page = Some 1,
            snippet = Some (ustr ''Due Date: March 5,2024''), confidence = 0.95, notes = None\<rparr>"
    by (simp add: extract_due_date_def eval_match RE_DUE_def RE_DATE_def RE_DATE_WORD_def)
  have e: "\<not> contains (ustr ''March 5,2024'') (ustr ''Due Date: March  5,2024'')"
    by (simp add: ustr_def prefix_code)
  from a b c d e show ?thesis by blast
qed

end
